theory Spec2Isabelle
  imports Main "HOL-Library.Word" "HOL-Library.Sublist"
begin
section \<open>The dynamic group manager of the RLN relay\<close>

text \<open>
  The development follows the Go package \<open>dynamic\<close>: the type
  \<open>DynamicGroupManager\<close>, the reconciliation function \<open>handler\<close>, the methods
  \<open>InsertMembers\<close> and \<open>RemoveMembers\<close> that apply a batch to the Merkle tree and
  to the root tracker, and the lifecycle methods \<open>Start\<close> and \<open>Stop\<close>.

  Go's \<open>uint64\<close> and \<open>int64\<close> are 64-bit words. Go's \<open>uint\<close> is taken at its
  width on 64-bit targets, 64 bits. A \<open>*big.Int\<close> is an unbounded integer; the
  contract binding's log decoder always fills the \<open>Index\<close> and \<open>IdCommitment\<close> of an
  event, so these fields are plain integers here. Logging is not modelled.
\<close>

subsection \<open>Machine integers and \<open>math/big\<close> conversions\<close>

type_synonym uint = "64 word"
type_synonym uint64 = "64 word"
type_synonym int64 = "64 word"

text \<open>
  \<open>(*big.Int).Int64\<close> takes the low 64 bits of the magnitude as an \<open>int64\<close> and
  negates the result for a negative number; \<open>(*big.Int).Uint64\<close> takes the low 64
  bits of the magnitude. Neither checks that the number fits.
\<close>

definition big_Int64 :: "int \<Rightarrow> int64" where
  "big_Int64 x = (let v = (word_of_int \<bar>x\<bar> :: 64 word) in if x < 0 then - v else v)"

definition big_Uint64 :: "int \<Rightarrow> uint64" where
  "big_Uint64 x = word_of_int \<bar>x\<bar>"

text \<open>The conversions \<open>uint(v)\<close> keep the 64 bits of an \<open>int64\<close> or \<open>uint64\<close>.\<close>

definition uint_of_int64 :: "int64 \<Rightarrow> uint" where
  "uint_of_int64 v = v"

definition uint_of_uint64 :: "uint64 \<Rightarrow> uint" where
  "uint_of_uint64 v = v"

subsection \<open>Events, errors and the calls made on collaborators\<close>

text \<open>
  An event \<open>*contracts.RLNMemberRegistered\<close> with the two fields of its \<open>Raw\<close> log
  entry that the manager reads.
\<close>

record RLNMemberRegistered =
  IdCommitment :: int
  Index :: int
  BlockNumber :: uint64
  Removed :: bool

datatype error = errors_New string | collaborator_error string | runtime_panic string

text \<open>
  The Merkle tree (\<open>gm.rln\<close>), the root tracker, the metadata store, the chain
  client and the keystore are collaborators outside the package. Every call made on one
  of them is appended to a log, in the order in which the code makes it. The type
  \<open>'c\<close> is \<open>rln.IDCommitment\<close>, an opaque 32-byte value.
\<close>

datatype 'c call =
    Call_rln_InsertMembers uint "'c list"
  | Call_rln_DeleteMembers "uint list"
  | Call_rln_Flush
  | Call_UpdateLatestRoot uint64
  | Call_Backfill uint64
  | Call_SetMetadata uint64
  | Call_ethclient_Dial string
  | Call_ChainID
  | Call_NewRLN string
  | Call_MEMBERSHIPDEPOSIT
  | Call_GetMembershipCredentials string string "int option" string
  | Call_HandleGroupUpdates
  | Call_cancel
  | Call_ethClient_Close
  | Call_wg_Wait

record MembershipGroup =
  TreeIndex :: uint

record MembershipCredentials =
  IdentityCredential :: "nat option"
  MembershipGroups :: "MembershipGroup list"

text \<open>
  What the collaborators answer. \<open>fails\<close> gives the error a call returns, if any,
  from the log of the calls made before it and the call itself; the other fields are the
  values returned next to a nil error. \<open>BigIntToBytes32\<close> is the pure conversion
  \<open>rln.BigIntToBytes32\<close>.
\<close>

record 'c env =
  fails :: "'c call list \<Rightarrow> 'c call \<Rightarrow> error option"
  BigIntToBytes32 :: "int \<Rightarrow> 'c"
  ChainID_value :: int
  credentials_value :: "MembershipCredentials list"

definition invoke :: "'c env \<Rightarrow> 'c call \<Rightarrow> 'c call list \<Rightarrow> error option \<times> 'c call list" where
  "invoke env c calls = (fails env calls c, calls @ [c])"

subsection \<open>The ordered map\<close>

text \<open>
  Modelled from the spec: the table type \<open>om.OrderedMap\<close> of the imported package
  \<open>go-ordered-map\<close> is not part of the sources. The data model describes it as a
  mapping from block number to the events of that block, insertion-ordered by arrival:
  \<open>Set\<close> on a new key appends the pair as the newest one, \<open>Set\<close> on a key already
  present replaces its value where it stands, \<open>Oldest\<close> and \<open>Next\<close> walk the pairs
  from the first inserted key on, \<open>Newest\<close> and \<open>Prev\<close> walk them backwards. The
  pairs are kept as a list, oldest first.
\<close>

type_synonym ('k, 'v) OrderedMap = "('k \<times> 'v) list"

definition om_New :: "('k, 'v) OrderedMap" where
  "om_New = []"

fun om_Get :: "('k, 'v) OrderedMap \<Rightarrow> 'k \<Rightarrow> 'v option" where
  "om_Get [] k = None"
| "om_Get ((k', v') # ps) k = (if k' = k then Some v' else om_Get ps k)"

fun om_Set :: "('k, 'v) OrderedMap \<Rightarrow> 'k \<Rightarrow> 'v \<Rightarrow> ('k, 'v) OrderedMap" where
  "om_Set [] k v = [(k, v)]"
| "om_Set ((k', v') # ps) k v = (if k' = k then (k, v) # ps else (k', v') # om_Set ps k v)"

definition oldest_first :: "('k, 'v) OrderedMap \<Rightarrow> ('k \<times> 'v) list" where
  "oldest_first m = m"

definition newest_first :: "('k, 'v) OrderedMap \<Rightarrow> ('k \<times> 'v) list" where
  "newest_first m = rev m"

subsection \<open>The manager\<close>

record DynamicGroupManager =
  rln :: "nat option"
  cancel :: "unit option"
  identityCredential :: "nat option"
  membershipIndex :: "uint option"
  membershipContractAddress :: string
  membershipGroupIndex :: uint
  ethClientAddress :: string
  ethClient :: "string option"
  lastBlockProcessed :: uint64
  chainId :: "int option"
  rlnContract :: "string option"
  keystorePath :: string
  keystorePassword :: string
  keystoreIndex :: uint
  rootTracker :: "nat option"

subsection \<open>\<open>RemoveMembers\<close> and \<open>InsertMembers\<close>\<close>

text \<open>
  \<open>RemoveMembers\<close> walks the table from \<open>Newest\<close> with \<open>Prev\<close>: it deletes the
  indexes of a block, returns the error of the deletion if there is one, and otherwise
  calls \<open>Backfill\<close>, which returns nothing.
\<close>

fun RemoveMembers_loop ::
  "'c env \<Rightarrow> (uint64 \<times> uint list) list \<Rightarrow> 'c call list \<Rightarrow> error option \<times> 'c call list" where
  "RemoveMembers_loop env [] calls = (None, calls)"
| "RemoveMembers_loop env ((key, memberIndexes) # pairs) calls =
     (case invoke env (Call_rln_DeleteMembers memberIndexes) calls of
        (Some err, calls1) \<Rightarrow> (Some err, calls1)
      | (None, calls1) \<Rightarrow>
          RemoveMembers_loop env pairs (snd (invoke env (Call_Backfill key) calls1)))"

definition RemoveMembers ::
  "'c env \<Rightarrow> (uint64, uint list) OrderedMap \<Rightarrow> 'c call list \<Rightarrow> error option \<times> 'c call list" where
  "RemoveMembers env toRemove calls = RemoveMembers_loop env (newest_first toRemove) calls"

text \<open>
  The inner loop of \<open>InsertMembers\<close> over the events of one block: the commitments
  are collected in arrival order, and \<open>oldestIndexInBlock\<close> is set from an event only
  while it is still nil, that is from the first event.
\<close>

definition collect_event ::
  "'c env \<Rightarrow> 'c list \<times> int option \<Rightarrow> RLNMemberRegistered \<Rightarrow> 'c list \<times> int option" where
  "collect_event env acc evt =
     (case acc of (idCommitments, oldestIndexInBlock) \<Rightarrow>
        (idCommitments @ [BigIntToBytes32 env (IdCommitment evt)],
         (case oldestIndexInBlock of None \<Rightarrow> Some (Index evt) | Some i \<Rightarrow> Some i)))"

definition collect_block ::
  "'c env \<Rightarrow> RLNMemberRegistered list \<Rightarrow> 'c list \<times> int option" where
  "collect_block env events = foldl (collect_event env) ([], None) events"

definition startIndex_of :: "int \<Rightarrow> uint" where
  "startIndex_of oldestIndexInBlock = uint_of_int64 (big_Int64 oldestIndexInBlock)"

fun InsertMembers_loop ::
  "'c env \<Rightarrow> (uint64 \<times> RLNMemberRegistered list) list \<Rightarrow> 'c call list
     \<Rightarrow> error option \<times> 'c call list" where
  "InsertMembers_loop env [] calls = (None, calls)"
| "InsertMembers_loop env ((key, events) # pairs) calls =
     (case collect_block env events of (idCommitments, oldestIndexInBlock) \<Rightarrow>
        if length idCommitments = 0 then InsertMembers_loop env pairs calls
        else
          (case oldestIndexInBlock of
             None \<Rightarrow> (Some (runtime_panic ''nil pointer dereference''), calls)
           | Some oldest \<Rightarrow>
               (case invoke env (Call_rln_InsertMembers (startIndex_of oldest) idCommitments) calls of
                  (Some err, calls1) \<Rightarrow> (Some err, calls1)
                | (None, calls1) \<Rightarrow>
                    (case invoke env (Call_UpdateLatestRoot key) calls1 of
                       (Some err, calls2) \<Rightarrow> (Some err, calls2)
                     | (None, calls2) \<Rightarrow> InsertMembers_loop env pairs calls2))))"

definition InsertMembers ::
  "'c env \<Rightarrow> (uint64, RLNMemberRegistered list) OrderedMap \<Rightarrow> 'c call list
     \<Rightarrow> error option \<times> 'c call list" where
  "InsertMembers env toInsert calls = InsertMembers_loop env (oldest_first toInsert) calls"

subsection \<open>\<open>handler\<close>\<close>

type_synonym tables =
  "(uint64, uint list) OrderedMap \<times> (uint64, RLNMemberRegistered list) OrderedMap \<times> uint64"

definition handler_event :: "tables \<Rightarrow> RLNMemberRegistered \<Rightarrow> tables" where
  "handler_event st event =
     (case st of (toRemoveTable, toInsertTable, lastBlock) \<Rightarrow>
        if Removed event then
          (let indexes = (case om_Get toRemoveTable (BlockNumber event) of
                            Some i_idx \<Rightarrow> i_idx | None \<Rightarrow> []);
               indexes' = indexes @ [uint_of_uint64 (big_Uint64 (Index event))]
           in (om_Set toRemoveTable (BlockNumber event) indexes', toInsertTable, lastBlock))
        else
          (let eventsPerBlock = (case om_Get toInsertTable (BlockNumber event) of
                                   Some i_evt \<Rightarrow> i_evt | None \<Rightarrow> []);
               eventsPerBlock' = eventsPerBlock @ [event]
           in (toRemoveTable, om_Set toInsertTable (BlockNumber event) eventsPerBlock',
               if BlockNumber event > lastBlock then BlockNumber event else lastBlock)))"

definition handler_tables :: "DynamicGroupManager \<Rightarrow> RLNMemberRegistered list \<Rightarrow> tables" where
  "handler_tables gm events = foldl handler_event (om_New, om_New, lastBlockProcessed gm) events"

text \<open>
  \<open>handler\<close> returns its error, the manager after the call and the log. The error of
  \<open>SetMetadata\<close> is only logged as a warning.
\<close>

definition handler ::
  "'c env \<Rightarrow> DynamicGroupManager \<Rightarrow> RLNMemberRegistered list \<Rightarrow> 'c call list
     \<Rightarrow> error option \<times> DynamicGroupManager \<times> 'c call list" where
  "handler env gm events calls =
     (case handler_tables gm events of (toRemoveTable, toInsertTable, lastBlock) \<Rightarrow>
        (case RemoveMembers env toRemoveTable calls of
           (Some err, calls1) \<Rightarrow> (Some err, gm, calls1)
         | (None, calls1) \<Rightarrow>
             (case InsertMembers env toInsertTable calls1 of
                (Some err, calls2) \<Rightarrow> (Some err, gm, calls2)
              | (None, calls2) \<Rightarrow>
                  (let gm' = gm\<lparr>lastBlockProcessed := lastBlock\<rparr>;
                       (err, calls3) = invoke env (Call_SetMetadata (lastBlockProcessed gm')) calls2
                   in (None, gm', calls3)))))"

subsection \<open>\<open>Start\<close> and \<open>Stop\<close>\<close>

text \<open>
  The credential block of \<open>Start\<close>. The comparisons convert the \<open>uint\<close> index with
  \<open>int(...)\<close>, the slice is then indexed with the \<open>uint\<close> itself; an index out of
  range is a run-time panic.
\<close>

definition Start_credentials ::
  "'c env \<Rightarrow> DynamicGroupManager \<Rightarrow> 'c call list
     \<Rightarrow> error option \<times> DynamicGroupManager \<times> 'c call list" where
  "Start_credentials env gm calls =
     (if identityCredential gm = None \<and> keystorePassword gm \<noteq> [] \<and> keystorePath gm \<noteq> [] then
        (case invoke env (Call_GetMembershipCredentials (keystorePath gm) (keystorePassword gm)
                            (chainId gm) (membershipContractAddress gm)) calls of
           (Some err, calls1) \<Rightarrow> (Some err, gm, calls1)
         | (None, calls1) \<Rightarrow>
             (let credentials = credentials_value env in
              if length credentials \<noteq> 0 then
                if sint (keystoreIndex gm) \<le> int (length credentials) - 1 then
                  if unat (keystoreIndex gm) < length credentials then
                    (let credential = credentials ! unat (keystoreIndex gm);
                         gm1 = gm\<lparr>identityCredential := IdentityCredential credential\<rparr>;
                         groups = MembershipGroups credential
                     in if sint (membershipGroupIndex gm1) \<le> int (length groups) - 1 then
                          if unat (membershipGroupIndex gm1) < length groups then
                            (None,
                             gm1\<lparr>membershipIndex :=
                                    Some (TreeIndex (groups ! unat (membershipGroupIndex gm1)))\<rparr>,
                             calls1)
                          else (Some (runtime_panic ''index out of range''), gm1, calls1)
                        else (Some (errors_New ''invalid membership group index''), gm1, calls1))
                  else (Some (runtime_panic ''index out of range''), gm, calls1)
                else (Some (errors_New ''invalid keystore index''), gm, calls1)
              else (None, gm, calls1)))
      else (None, gm, calls))"

text \<open>
  \<open>Start\<close> stores the cancel function before it dials the chain client. Each
  \<open>return err\<close> hands back the manager as the assignments made so far have left it.
  \<open>HandleGroupUpdates\<close>, which starts the workers, is a method of another file.
\<close>

definition Start ::
  "'c env \<Rightarrow> DynamicGroupManager \<Rightarrow> nat option \<Rightarrow> nat option \<Rightarrow> 'c call list
     \<Rightarrow> error option \<times> DynamicGroupManager \<times> 'c call list" where
  "Start env gm rlnInstance tracker calls =
     (if cancel gm \<noteq> None then (Some (errors_New ''already started''), gm, calls)
      else
        (let gm1 = gm\<lparr>cancel := Some ()\<rparr> in
         case invoke env (Call_ethclient_Dial (ethClientAddress gm1)) calls of
           (Some err, calls1) \<Rightarrow> (Some err, gm1, calls1)
         | (None, calls1) \<Rightarrow>
             (let gm2 = gm1\<lparr>ethClient := Some (ethClientAddress gm1), rln := rlnInstance,
                            rootTracker := tracker\<rparr> in
              case invoke env Call_ChainID calls1 of
                (Some err, calls2) \<Rightarrow> (Some err, gm2\<lparr>chainId := None\<rparr>, calls2)
              | (None, calls2) \<Rightarrow>
                  (let gm3 = gm2\<lparr>chainId := Some (ChainID_value env)\<rparr> in
                   case invoke env (Call_NewRLN (membershipContractAddress gm3)) calls2 of
                     (Some err, calls3) \<Rightarrow> (Some err, gm3\<lparr>rlnContract := None\<rparr>, calls3)
                   | (None, calls3) \<Rightarrow>
                       (let gm4 = gm3\<lparr>rlnContract := Some (membershipContractAddress gm3)\<rparr> in
                        case invoke env Call_MEMBERSHIPDEPOSIT calls3 of
                          (Some err, calls4) \<Rightarrow> (Some err, gm4, calls4)
                        | (None, calls4) \<Rightarrow>
                            (case Start_credentials env gm4 calls4 of
                               (Some err, gm5, calls5) \<Rightarrow> (Some err, gm5, calls5)
                             | (None, gm5, calls5) \<Rightarrow>
                                 if identityCredential gm5 = None \<or> membershipIndex gm5 = None
                                 then (Some (errors_New ''no credentials available''), gm5, calls5)
                                 else
                                   (case invoke env Call_HandleGroupUpdates calls5 of
                                      (err, calls6) \<Rightarrow> (err, gm5, calls6))))))))"

text \<open>
  \<open>Stop\<close> changes no field of the manager; \<open>cancel\<close>, \<open>Close\<close> and \<open>Wait\<close>
  return nothing. \<open>gm.rln.Flush()\<close> and \<open>gm.ethClient.Close()\<close> dereference their
  handle: on a manager whose handle is nil, as a failed \<open>Start\<close> can leave it, the call
  is a run-time panic.
\<close>

definition Stop ::
  "'c env \<Rightarrow> DynamicGroupManager \<Rightarrow> 'c call list \<Rightarrow> error option \<times> 'c call list" where
  "Stop env gm calls =
     (case cancel gm of
        None \<Rightarrow> (None, calls)
      | Some cancelFunc \<Rightarrow>
          (case rln gm of
             None \<Rightarrow> (Some (runtime_panic ''nil pointer dereference''), calls @ [Call_cancel])
           | Some rlnInstance \<Rightarrow>
               (case invoke env Call_rln_Flush (calls @ [Call_cancel]) of
                  (Some err, calls1) \<Rightarrow> (Some err, calls1)
                | (None, calls1) \<Rightarrow>
                    (case ethClient gm of
                       None \<Rightarrow> (Some (runtime_panic ''nil pointer dereference''), calls1)
                     | Some client \<Rightarrow>
                         (None, calls1 @ [Call_ethClient_Close, Call_wg_Wait])))))"

subsection \<open>Describing a run: the calls a batch makes\<close>

text \<open>
  The definitions of this part are not code of the package. They name what the theorems
  talk about: the calls a function has added to the log, the kinds of calls, the first
  error among the tree mutations of a run, and the calls a batch of events is expected to
  produce.
\<close>

definition new_calls :: "'c call list \<Rightarrow> 'c call list \<Rightarrow> 'c call list" where
  "new_calls before after = drop (length before) after"

fun is_removal_call :: "'c call \<Rightarrow> bool" where
  "is_removal_call (Call_rln_DeleteMembers indexes) = True"
| "is_removal_call (Call_Backfill b) = True"
| "is_removal_call c = False"

fun is_insertion_call :: "'c call \<Rightarrow> bool" where
  "is_insertion_call (Call_rln_InsertMembers i cs) = True"
| "is_insertion_call (Call_UpdateLatestRoot b) = True"
| "is_insertion_call c = False"

fun is_mutation_call :: "'c call \<Rightarrow> bool" where
  "is_mutation_call (Call_rln_DeleteMembers indexes) = True"
| "is_mutation_call (Call_rln_InsertMembers i cs) = True"
| "is_mutation_call (Call_UpdateLatestRoot b) = True"
| "is_mutation_call c = False"

definition mutation_error :: "'c env \<Rightarrow> 'c call list \<Rightarrow> 'c call \<Rightarrow> error option" where
  "mutation_error env calls c = (if is_mutation_call c then fails env calls c else None)"

fun first_failure :: "'c env \<Rightarrow> 'c call list \<Rightarrow> 'c call list \<Rightarrow> error option" where
  "first_failure env calls [] = None"
| "first_failure env calls (c # cs) =
     (case mutation_error env calls c of
        Some err \<Rightarrow> Some err
      | None \<Rightarrow> first_failure env (calls @ [c]) cs)"

fun run_calls :: "'c env \<Rightarrow> 'c call list \<Rightarrow> 'c call list \<Rightarrow> error option \<times> 'c call list" where
  "run_calls env [] calls = (None, calls)"
| "run_calls env (c # cs) calls =
     (case mutation_error env calls c of
        Some err \<Rightarrow> (Some err, calls @ [c])
      | None \<Rightarrow> run_calls env cs (calls @ [c]))"

definition removal_calls_of :: "uint64 \<times> uint list \<Rightarrow> 'c call list" where
  "removal_calls_of p = [Call_rln_DeleteMembers (snd p), Call_Backfill (fst p)]"

definition commitments_of :: "'c env \<Rightarrow> RLNMemberRegistered list \<Rightarrow> 'c list" where
  "commitments_of env events = map (\<lambda>e. BigIntToBytes32 env (IdCommitment e)) events"

definition insertion_calls_of :: "'c env \<Rightarrow> uint64 \<times> RLNMemberRegistered list \<Rightarrow> 'c call list" where
  "insertion_calls_of env p =
     (case snd p of
        [] \<Rightarrow> []
      | first # others \<Rightarrow>
          [Call_rln_InsertMembers (startIndex_of (Index first)) (commitments_of env (snd p)),
           Call_UpdateLatestRoot (fst p)])"

fun Backfill_blocks :: "'c call list \<Rightarrow> uint64 list" where
  "Backfill_blocks [] = []"
| "Backfill_blocks (Call_Backfill b # cs) = b # Backfill_blocks cs"
| "Backfill_blocks (c # cs) = Backfill_blocks cs"

fun UpdateLatestRoot_blocks :: "'c call list \<Rightarrow> uint64 list" where
  "UpdateLatestRoot_blocks [] = []"
| "UpdateLatestRoot_blocks (Call_UpdateLatestRoot b # cs) = b # UpdateLatestRoot_blocks cs"
| "UpdateLatestRoot_blocks (c # cs) = UpdateLatestRoot_blocks cs"

definition first_occurrences :: "'a list \<Rightarrow> 'a list" where
  "first_occurrences xs = rev (remdups (rev xs))"

definition removed_blocks :: "RLNMemberRegistered list \<Rightarrow> uint64 list" where
  "removed_blocks events = first_occurrences (map BlockNumber (filter Removed events))"

definition inserted_blocks :: "RLNMemberRegistered list \<Rightarrow> uint64 list" where
  "inserted_blocks events = first_occurrences (map BlockNumber (filter (\<lambda>e. \<not> Removed e) events))"

definition removal_group :: "RLNMemberRegistered list \<Rightarrow> uint64 \<Rightarrow> uint list" where
  "removal_group events b =
     map (\<lambda>e. uint_of_uint64 (big_Uint64 (Index e))) (filter (\<lambda>e. Removed e \<and> BlockNumber e = b) events)"

definition insertion_group :: "RLNMemberRegistered list \<Rightarrow> uint64 \<Rightarrow> RLNMemberRegistered list" where
  "insertion_group events b = filter (\<lambda>e. \<not> Removed e \<and> BlockNumber e = b) events"

definition watermark :: "uint64 \<Rightarrow> RLNMemberRegistered list \<Rightarrow> uint64" where
  "watermark previous events =
     Max (set (previous # map BlockNumber (filter (\<lambda>e. \<not> Removed e) events)))"

definition batch_removal_calls :: "RLNMemberRegistered list \<Rightarrow> 'c call list" where
  "batch_removal_calls events =
     concat (map (\<lambda>b. [Call_rln_DeleteMembers (removal_group events b), Call_Backfill b])
               (rev (removed_blocks events)))"

definition batch_insertion_calls :: "'c env \<Rightarrow> RLNMemberRegistered list \<Rightarrow> 'c call list" where
  "batch_insertion_calls env events =
     concat (map (\<lambda>b. insertion_calls_of env (b, insertion_group events b)) (inserted_blocks events))"

text \<open>
  The calls that the specification expects for the insertion group of one block: the
  insertion starts at the lowest index among the events of the group.
\<close>

definition spec_insertion_calls_of ::
  "'c env \<Rightarrow> uint64 \<times> RLNMemberRegistered list \<Rightarrow> 'c call list" where
  "spec_insertion_calls_of env p =
     (if snd p = [] then []
      else [Call_rln_InsertMembers (startIndex_of (Min (set (map Index (snd p)))))
              (commitments_of env (snd p)),
            Call_UpdateLatestRoot (fst p)])"

subsection \<open>Concrete collaborators and events\<close>

definition example_env :: "int env" where
  "example_env = \<lparr>fails = (\<lambda>calls c. None), BigIntToBytes32 = (\<lambda>i. i), ChainID_value = 1,
     credentials_value = []\<rparr>"

definition failing_on :: "int call \<Rightarrow> int env" where
  "failing_on c = example_env\<lparr>fails :=
     (\<lambda>calls c'. if c' = c then Some (collaborator_error ''failed'') else None)\<rparr>"

definition persist_failing_env :: "int env" where
  "persist_failing_env = example_env\<lparr>fails :=
     (\<lambda>calls c. case c of Call_SetMetadata w \<Rightarrow> Some (collaborator_error ''failed'')
                 | _ \<Rightarrow> None)\<rparr>"

definition example_gm :: DynamicGroupManager where
  "example_gm = \<lparr>rln = Some 0, cancel = Some (), identityCredential = Some 0,
     membershipIndex = Some 0, membershipContractAddress = ''0xC'', membershipGroupIndex = 0,
     ethClientAddress = ''ws://chain'', ethClient = Some ''ws://chain'', lastBlockProcessed = 45,
     chainId = Some 1, rlnContract = Some ''0xC'', keystorePath = ''keystore.json'',
     keystorePassword = ''password'', keystoreIndex = 0, rootTracker = Some 0\<rparr>"

definition member_event :: "int \<Rightarrow> int \<Rightarrow> uint64 \<Rightarrow> bool \<Rightarrow> RLNMemberRegistered" where
  "member_event c i b r = \<lparr>IdCommitment = c, Index = i, BlockNumber = b, Removed = r\<rparr>"

definition fresh_gm :: DynamicGroupManager where
  "fresh_gm = \<lparr>rln = None, cancel = None, identityCredential = None,
     membershipIndex = None, membershipContractAddress = ''0xC'', membershipGroupIndex = 0,
     ethClientAddress = ''ws://chain'', ethClient = None, lastBlockProcessed = 0,
     chainId = None, rlnContract = None, keystorePath = ''keystore.json'',
     keystorePassword = ''password'', keystoreIndex = 0, rootTracker = None\<rparr>"

section \<open>Properties\<close>

subsection \<open>The ordered map and the order of first arrival\<close>

lemma om_Get_map:
  "om_Get (map (\<lambda>k. (k, g k)) ks) b = (if b \<in> set ks then Some (g b) else None)"
  by (induction ks) auto

lemma om_Set_map:
  "distinct ks \<Longrightarrow>
   om_Set (map (\<lambda>k. (k, g k)) ks) b v =
     (if b \<in> set ks then map (\<lambda>k. (k, (g(b := v)) k)) ks else map (\<lambda>k. (k, g k)) ks @ [(b, v)])"
  by (induction ks) auto

lemma first_occurrences_Nil: "first_occurrences [] = []"
  by (simp add: first_occurrences_def)

lemma first_occurrences_snoc:
  "first_occurrences (xs @ [x]) =
     (if x \<in> set xs then first_occurrences xs else first_occurrences xs @ [x])"
  by (simp add: first_occurrences_def)

lemma set_first_occurrences: "set (first_occurrences xs) = set xs"
  by (simp add: first_occurrences_def)

lemma distinct_first_occurrences: "distinct (first_occurrences xs)"
  by (simp add: first_occurrences_def)

lemma first_occurrences_strictly_sorted:
  fixes xs :: "'a::linorder list"
  shows "sorted xs \<Longrightarrow> sorted_wrt (<) (first_occurrences xs)"
proof (induction xs rule: rev_induct)
  case Nil
  then show ?case by (simp add: first_occurrences_Nil)
next
  case (snoc x xs)
  from snoc.prems have sx: "sorted xs" and le: "\<forall>y\<in>set xs. y \<le> x"
    by (auto simp: sorted_append)
  show ?case
  proof (cases "x \<in> set xs")
    case True
    then show ?thesis using snoc.IH sx by (simp add: first_occurrences_snoc)
  next
    case False
    with le have "\<forall>y\<in>set (first_occurrences xs). y < x"
      by (auto simp: set_first_occurrences order.strict_iff_order)
    then show ?thesis using False snoc.IH sx
      by (simp add: first_occurrences_snoc sorted_wrt_append)
  qed
qed

lemma collect_fold:
  "foldl (collect_event env) (cs, oldest) evs =
     (cs @ commitments_of env evs,
      case oldest of Some i \<Rightarrow> Some i
      | None \<Rightarrow> (case evs of [] \<Rightarrow> None | e # es \<Rightarrow> Some (Index e)))"
  by (induction evs arbitrary: cs oldest)
     (auto simp: collect_event_def commitments_of_def split: option.splits)

lemma collect_block_eq:
  "collect_block env evs =
     (commitments_of env evs, case evs of [] \<Rightarrow> None | e # es \<Rightarrow> Some (Index e))"
  by (simp add: collect_block_def collect_fold)

lemma run_calls_append:
  "run_calls env (as @ bs) calls =
     (case run_calls env as calls of
        (Some err, calls1) \<Rightarrow> (Some err, calls1)
      | (None, calls1) \<Rightarrow> run_calls env bs calls1)"
  by (induction as arbitrary: calls) (auto split: option.splits)

lemma RemoveMembers_loop_run:
  "RemoveMembers_loop env pairs calls = run_calls env (concat (map removal_calls_of pairs)) calls"
  by (induction pairs arbitrary: calls)
     (auto simp: removal_calls_of_def invoke_def mutation_error_def split: option.splits)

lemma InsertMembers_loop_run:
  "InsertMembers_loop env pairs calls =
     run_calls env (concat (map (insertion_calls_of env) pairs)) calls"
proof (induction pairs arbitrary: calls)
  case Nil
  then show ?case by simp
next
  case (Cons p pairs)
  obtain key events where p: "p = (key, events)" by (cases p)
  show ?case
  proof (cases events)
    case Nil
    then show ?thesis
      using Cons.IH by (simp add: p collect_block_eq commitments_of_def insertion_calls_of_def)
  next
    case (Cons e es)
    then show ?thesis
      using Cons.IH
      by (simp add: p collect_block_eq commitments_of_def insertion_calls_of_def invoke_def
            mutation_error_def split: option.splits)
  qed
qed

lemma run_calls_shape:
  "run_calls env cs calls = (r, calls') \<Longrightarrow>
     \<exists>n. calls' = calls @ take n cs \<and> first_failure env calls (take n cs) = r \<and>
         (r = None \<longrightarrow> take n cs = cs) \<and>
         (r \<noteq> None \<longrightarrow> 0 < n \<and> n \<le> length cs \<and> first_failure env calls (take (n - 1) cs) = None)"
proof (induction cs arbitrary: calls)
  case Nil
  then show ?case by simp
next
  case (Cons c cs)
  show ?case
  proof (cases "mutation_error env calls c")
    case None
    with Cons.prems have "run_calls env cs (calls @ [c]) = (r, calls')" by simp
    from Cons.IH[OF this] obtain n where
      n1: "calls' = (calls @ [c]) @ take n cs"
      and n2: "first_failure env (calls @ [c]) (take n cs) = r"
      and n3: "r = None \<longrightarrow> take n cs = cs"
      and n4: "r \<noteq> None \<longrightarrow> 0 < n \<and> n \<le> length cs \<and>
                 first_failure env (calls @ [c]) (take (n - 1) cs) = None"
      by (elim exE conjE)
    have a: "calls' = calls @ take (Suc n) (c # cs)" using n1 by simp
    have b: "first_failure env calls (take (Suc n) (c # cs)) = r" using n2 None by simp
    have c3: "r = None \<longrightarrow> take (Suc n) (c # cs) = c # cs" using n3 by simp
    have d: "r \<noteq> None \<longrightarrow> 0 < Suc n \<and> Suc n \<le> length (c # cs) \<and>
                first_failure env calls (take (Suc n - 1) (c # cs)) = None"
    proof
      assume ne: "r \<noteq> None"
      with n4 have pos: "0 < n" and le: "n \<le> length cs"
        and ff: "first_failure env (calls @ [c]) (take (n - 1) cs) = None"
        by simp_all
      from pos obtain m where m: "n = Suc m" by (cases n) simp_all
      have "first_failure env calls (take n (c # cs)) = None"
        using ff None by (simp add: m)
      then show "0 < Suc n \<and> Suc n \<le> length (c # cs) \<and>
                first_failure env calls (take (Suc n - 1) (c # cs)) = None"
        using le by simp
    qed
    show ?thesis using a b c3 d by (intro exI[of _ "Suc n"] conjI)
  next
    case (Some err)
    with Cons.prems have r: "r = Some err" and c': "calls' = calls @ [c]" by simp_all
    have a: "calls' = calls @ take (Suc 0) (c # cs)" using c' by simp
    have b: "first_failure env calls (take (Suc 0) (c # cs)) = r" using Some r by simp
    have c3: "r = None \<longrightarrow> take (Suc 0) (c # cs) = c # cs" using r by simp
    have d: "r \<noteq> None \<longrightarrow> 0 < Suc 0 \<and> Suc 0 \<le> length (c # cs) \<and>
                first_failure env calls (take (Suc 0 - 1) (c # cs)) = None"
      by simp
    show ?thesis using a b c3 d by (intro exI[of _ "Suc 0"] conjI)
  qed
qed

lemma first_failure_append:
  "first_failure env calls (as @ bs) =
     (case first_failure env calls as of
        Some err \<Rightarrow> Some err
      | None \<Rightarrow> first_failure env (calls @ as) bs)"
  by (induction as arbitrary: calls) (auto split: option.splits)

lemma removal_group_absent:
  "b \<notin> set (removed_blocks events) \<Longrightarrow> removal_group events b = []"
  by (auto simp: removed_blocks_def set_first_occurrences removal_group_def filter_empty_conv)

lemma insertion_group_absent:
  "b \<notin> set (inserted_blocks events) \<Longrightarrow> insertion_group events b = []"
  by (auto simp: inserted_blocks_def set_first_occurrences insertion_group_def filter_empty_conv)

lemma watermark_snoc_removed:
  "Removed x \<Longrightarrow> watermark w (xs @ [x]) = watermark w xs"
  by (simp add: watermark_def)

lemma watermark_snoc_inserted:
  "\<not> Removed x \<Longrightarrow>
   watermark w (xs @ [x]) = (if BlockNumber x > watermark w xs then BlockNumber x else watermark w xs)"
proof -
  assume nr: "\<not> Removed x"
  let ?S = "set (w # map BlockNumber (filter (\<lambda>e. \<not> Removed e) xs))"
  have "set (w # map BlockNumber (filter (\<lambda>e. \<not> Removed e) (xs @ [x]))) = insert (BlockNumber x) ?S"
    using nr by auto
  then have "watermark w (xs @ [x]) = Max (insert (BlockNumber x) ?S)"
    by (simp only: watermark_def)
  also have "\<dots> = max (BlockNumber x) (Max ?S)"
    by (rule Max_insert) auto
  also have "Max ?S = watermark w xs"
    by (simp only: watermark_def)
  finally show ?thesis by (auto simp: max_def not_le)
qed

lemma distinct_removed_blocks: "distinct (removed_blocks events)"
  by (simp add: removed_blocks_def distinct_first_occurrences)

lemma distinct_inserted_blocks: "distinct (inserted_blocks events)"
  by (simp add: inserted_blocks_def distinct_first_occurrences)

lemma map_upd_absent:
  "b \<notin> set ks \<Longrightarrow> map (\<lambda>k. (k, (g(b := v)) k)) ks = map (\<lambda>k. (k, g k)) ks"
  by (induction ks) auto

lemma handler_tables_eq:
  "foldl handler_event (om_New, om_New, w) events =
     (map (\<lambda>b. (b, removal_group events b)) (removed_blocks events),
      map (\<lambda>b. (b, insertion_group events b)) (inserted_blocks events),
      watermark w events)"
proof (induction events rule: rev_induct)
  case Nil
  then show ?case
    by (simp add: om_New_def removed_blocks_def inserted_blocks_def first_occurrences_Nil
          watermark_def)
next
  case (snoc x xs)
  have step: "foldl handler_event (om_New, om_New, w) (xs @ [x]) =
      handler_event (foldl handler_event (om_New, om_New, w) xs) x"
    by simp
  show ?case
  proof (cases "Removed x")
    case True
    have rb: "removed_blocks (xs @ [x]) =
        (if BlockNumber x \<in> set (removed_blocks xs) then removed_blocks xs
         else removed_blocks xs @ [BlockNumber x])"
      using True by (simp add: removed_blocks_def first_occurrences_snoc set_first_occurrences)
    have ib: "inserted_blocks (xs @ [x]) = inserted_blocks xs"
      using True by (simp add: inserted_blocks_def)
    have ig: "insertion_group (xs @ [x]) = insertion_group xs"
      using True by (simp add: insertion_group_def fun_eq_iff)
    have rg: "removal_group (xs @ [x]) =
        (removal_group xs)(BlockNumber x :=
           removal_group xs (BlockNumber x) @ [uint_of_uint64 (big_Uint64 (Index x))])"
      using True by (auto simp: removal_group_def fun_eq_iff)
    show ?thesis
    proof (cases "BlockNumber x \<in> set (removed_blocks xs)")
      case present: True
      show ?thesis
        unfolding step snoc.IH
        using True present
        by (simp add: handler_event_def om_Get_map om_Set_map distinct_removed_blocks
              rb ib ig rg watermark_snoc_removed del: fun_upd_apply)
    next
      case absent: False
      show ?thesis
        unfolding step snoc.IH
        using True absent
        by (simp add: handler_event_def om_Get_map om_Set_map distinct_removed_blocks
              rb ib ig rg watermark_snoc_removed removal_group_absent map_upd_absent
              fun_upd_same del: fun_upd_apply)
    qed
  next
    case False
    have ib: "inserted_blocks (xs @ [x]) =
        (if BlockNumber x \<in> set (inserted_blocks xs) then inserted_blocks xs
         else inserted_blocks xs @ [BlockNumber x])"
      using False by (simp add: inserted_blocks_def first_occurrences_snoc set_first_occurrences)
    have rb: "removed_blocks (xs @ [x]) = removed_blocks xs"
      using False by (simp add: removed_blocks_def)
    have rg: "removal_group (xs @ [x]) = removal_group xs"
      using False by (simp add: removal_group_def fun_eq_iff)
    have ig: "insertion_group (xs @ [x]) =
        (insertion_group xs)(BlockNumber x := insertion_group xs (BlockNumber x) @ [x])"
      using False by (auto simp: insertion_group_def fun_eq_iff)
    show ?thesis
    proof (cases "BlockNumber x \<in> set (inserted_blocks xs)")
      case present: True
      show ?thesis
        unfolding step snoc.IH
        using False present
        by (simp add: handler_event_def om_Get_map om_Set_map distinct_inserted_blocks
              rb ib ig rg watermark_snoc_inserted del: fun_upd_apply)
    next
      case absent: False
      show ?thesis
        unfolding step snoc.IH
        using False absent
        by (simp add: handler_event_def om_Get_map om_Set_map distinct_inserted_blocks
              rb ib ig rg watermark_snoc_inserted insertion_group_absent map_upd_absent
              fun_upd_same del: fun_upd_apply)
    qed
  qed
qed

lemma removal_pairs_calls:
  "concat (map removal_calls_of
      (newest_first (map (\<lambda>b. (b, removal_group events b)) (removed_blocks events)))) =
   batch_removal_calls events"
  by (simp add: newest_first_def removal_calls_of_def batch_removal_calls_def rev_map o_def)

lemma insertion_pairs_calls:
  "concat (map (insertion_calls_of env)
      (oldest_first (map (\<lambda>b. (b, insertion_group events b)) (inserted_blocks events)))) =
   batch_insertion_calls env events"
  by (simp add: oldest_first_def batch_insertion_calls_def o_def)

lemma handler_eq:
  "handler env gm events calls =
     (case run_calls env (batch_removal_calls events @ batch_insertion_calls env events) calls of
        (Some err, calls1) \<Rightarrow> (Some err, gm, calls1)
      | (None, calls1) \<Rightarrow>
          (None, gm\<lparr>lastBlockProcessed := watermark (lastBlockProcessed gm) events\<rparr>,
           calls1 @ [Call_SetMetadata (watermark (lastBlockProcessed gm) events)]))"
  by (simp add: handler_def handler_tables_def handler_tables_eq RemoveMembers_def
        InsertMembers_def RemoveMembers_loop_run InsertMembers_loop_run removal_pairs_calls
        insertion_pairs_calls run_calls_append invoke_def split: prod.splits option.splits)

lemma handler_shape:
  assumes run: "handler env gm events calls = (r, gm', calls')"
  shows "(r = None \<and> gm' = gm\<lparr>lastBlockProcessed := watermark (lastBlockProcessed gm) events\<rparr> \<and>
          new_calls calls calls' =
            (batch_removal_calls events @ batch_insertion_calls env events) @
            [Call_SetMetadata (watermark (lastBlockProcessed gm) events)] \<and>
          first_failure env calls
            (batch_removal_calls events @ batch_insertion_calls env events) = None) \<or>
         (\<exists>n err. r = Some err \<and> gm' = gm \<and> 0 < n \<and>
            n \<le> length (batch_removal_calls events @ batch_insertion_calls env events) \<and>
            new_calls calls calls' =
              take n (batch_removal_calls events @ batch_insertion_calls env events) \<and>
            first_failure env calls
              (take n (batch_removal_calls events @ batch_insertion_calls env events)) = Some err \<and>
            first_failure env calls
              (take (n - 1) (batch_removal_calls events @ batch_insertion_calls env events)) = None)"
proof -
  let ?RI = "batch_removal_calls events @ batch_insertion_calls env events"
  let ?W = "watermark (lastBlockProcessed gm) events"
  obtain r0 calls0 where run0: "run_calls env ?RI calls = (r0, calls0)"
    by (cases "run_calls env ?RI calls")
  from run_calls_shape[OF run0] obtain n where
    n1: "calls0 = calls @ take n ?RI"
    and n2: "first_failure env calls (take n ?RI) = r0"
    and n3: "r0 = None \<longrightarrow> take n ?RI = ?RI"
    and n4: "r0 \<noteq> None \<longrightarrow> 0 < n \<and> n \<le> length ?RI \<and>
               first_failure env calls (take (n - 1) ?RI) = None"
    by (elim exE conjE)
  show ?thesis
  proof (cases r0)
    case None
    have h: "handler env gm events calls =
        (None, gm\<lparr>lastBlockProcessed := ?W\<rparr>, calls0 @ [Call_SetMetadata ?W])"
      unfolding handler_eq run0 None by simp
    from h run have r: "r = None" and g: "gm' = gm\<lparr>lastBlockProcessed := ?W\<rparr>"
      and c: "calls' = calls0 @ [Call_SetMetadata ?W]"
      by simp_all
    from n3 None have full: "take n ?RI = ?RI" by simp
    have nc: "new_calls calls calls' = ?RI @ [Call_SetMetadata ?W]"
      unfolding new_calls_def c n1 full by simp
    have ff: "first_failure env calls ?RI = None"
      using n2 full None by simp
    show ?thesis using r g nc ff by (intro disjI1 conjI)
  next
    case (Some err)
    have h: "handler env gm events calls = (Some err, gm, calls0)"
      unfolding handler_eq run0 Some by simp
    from h run have r: "r = Some err" and g: "gm' = gm" and c: "calls' = calls0"
      by simp_all
    from n4 Some have pos: "0 < n" and le: "n \<le> length ?RI"
      and ffp: "first_failure env calls (take (n - 1) ?RI) = None"
      by simp_all
    have nc: "new_calls calls calls' = take n ?RI"
      unfolding new_calls_def c n1 by simp
    have ff: "first_failure env calls (take n ?RI) = Some err"
      using n2 Some by simp
    show ?thesis
      using r g pos le nc ff ffp by (intro disjI2 exI[of _ n] exI[of _ err] conjI)
  qed
qed

lemma handler_extends:
  assumes run: "handler env gm events calls = (r, gm', calls')"
  shows "calls' = calls @ new_calls calls calls'"
proof -
  let ?RI = "batch_removal_calls events @ batch_insertion_calls env events"
  obtain r0 calls0 where run0: "run_calls env ?RI calls = (r0, calls0)"
    by (cases "run_calls env ?RI calls")
  from run_calls_shape[OF run0] obtain n where n1: "calls0 = calls @ take n ?RI"
    by (elim exE conjE)
  show ?thesis
  proof (cases r0)
    case None
    from run have "calls' = calls0 @ [Call_SetMetadata (watermark (lastBlockProcessed gm) events)]"
      unfolding handler_eq run0 None by simp
    then show ?thesis unfolding new_calls_def n1 by simp
  next
    case (Some err)
    from run have "calls' = calls0"
      unfolding handler_eq run0 Some by simp
    then show ?thesis unfolding new_calls_def n1 by simp
  qed
qed

lemma first_failure_None_mutation:
  "first_failure env calls (pre @ c # rest) = None \<Longrightarrow> is_mutation_call c \<Longrightarrow>
   fails env (calls @ pre) c = None"
  by (auto simp: first_failure_append mutation_error_def split: option.splits)

lemma batch_removal_calls_all: "list_all is_removal_call (batch_removal_calls events)"
  by (simp add: batch_removal_calls_def list_all_iff)

lemma insertion_calls_of_all: "list_all is_insertion_call (insertion_calls_of env p)"
  by (simp add: insertion_calls_of_def split: list.splits)

lemma batch_insertion_calls_all: "list_all is_insertion_call (batch_insertion_calls env events)"
  using insertion_calls_of_all
  by (auto simp: batch_insertion_calls_def list_all_iff)

lemma SetMetadata_not_in_batch:
  "Call_SetMetadata w \<notin> set (batch_removal_calls events @ batch_insertion_calls env events)"
  using batch_removal_calls_all[of events] batch_insertion_calls_all[of env events]
  by (auto simp: list_all_iff)

lemma mutation_not_SetMetadata: "is_mutation_call c \<Longrightarrow> c \<noteq> Call_SetMetadata w"
  by auto

subsection \<open>Evaluating the functions on concrete batches\<close>

lemmas handler_eval =
  handler_def handler_tables_def handler_event_def om_New_def RemoveMembers_def
  InsertMembers_def newest_first_def oldest_first_def collect_block_def collect_event_def
  invoke_def startIndex_of_def big_Int64_def big_Uint64_def uint_of_int64_def uint_of_uint64_def
  example_env_def failing_on_def persist_failing_env_def example_gm_def member_event_def

subsection \<open>The watermark and the errors of a batch\<close>

text \<open>
  Claim C5. When \<open>handler\<close> returns no error, the new \<open>lastBlockProcessed\<close> is the
  maximum of its previous value and the block numbers of the batch's events that are not
  removed. It is never below the previous value, and a batch with no such event, that is
  one of removals only, leaves it as it was.
\<close>

theorem C5_watermark_is_maximum:
  assumes "handler env gm events calls = (None, gm', calls')"
  shows "lastBlockProcessed gm' =
           Max (set (lastBlockProcessed gm # map BlockNumber (filter (\<lambda>e. \<not> Removed e) events))) \<and>
         lastBlockProcessed gm \<le> lastBlockProcessed gm' \<and>
         (filter (\<lambda>e. \<not> Removed e) events = [] \<longrightarrow>
            lastBlockProcessed gm' = lastBlockProcessed gm)"
proof -
  from handler_shape[OF assms]
  have gm': "gm' = gm\<lparr>lastBlockProcessed := watermark (lastBlockProcessed gm) events\<rparr>"
    by auto
  have ge: "lastBlockProcessed gm \<le> watermark (lastBlockProcessed gm) events"
    unfolding watermark_def by (rule Max_ge) auto
  show ?thesis
    using ge by (auto simp: gm' watermark_def)
qed

text \<open>
  Claim C6. Let \<open>c\<close> be a call of the batch on the tree or the root tracker whose
  error \<open>handler\<close> checks (\<open>DeleteMembers\<close>, \<open>InsertMembers\<close> or
  \<open>UpdateLatestRoot\<close>), made after the calls \<open>pre\<close> of the batch, and let it
  return the error \<open>e\<close>. Then \<open>handler\<close> returns \<open>e\<close>, the manager is unchanged,
  with its \<open>lastBlockProcessed\<close>, the call is the last one of the batch, and the batch
  makes no \<open>SetMetadata\<close> call.
\<close>

theorem C6_mutation_error_aborts_batch:
  assumes run: "handler env gm events calls = (r, gm', calls')"
    and log: "calls' = calls @ pre @ c # rest"
    and mut: "is_mutation_call c"
    and err: "fails env (calls @ pre) c = Some e"
  shows "r = Some e \<and> gm' = gm \<and> lastBlockProcessed gm' = lastBlockProcessed gm \<and> rest = [] \<and>
         (\<forall>w. Call_SetMetadata w \<notin> set (pre @ c # rest))"
proof -
  let ?RI = "batch_removal_calls events @ batch_insertion_calls env events"
  let ?W = "watermark (lastBlockProcessed gm) events"
  have new: "new_calls calls calls' = pre @ c # rest"
    by (simp add: log new_calls_def)
  from handler_shape[OF run] consider
    (ok) "r = None" "new_calls calls calls' = ?RI @ [Call_SetMetadata ?W]"
         "first_failure env calls ?RI = None"
  | (failed) n err where "r = Some err" "gm' = gm" "0 < n" "n \<le> length ?RI"
         "new_calls calls calls' = take n ?RI" "first_failure env calls (take n ?RI) = Some err"
         "first_failure env calls (take (n - 1) ?RI) = None"
    by (elim disjE conjE exE) blast+
  then show ?thesis
  proof cases
    case ok
    have "rest \<noteq> []"
    proof
      assume "rest = []"
      with ok(2) new have "c = Call_SetMetadata ?W" by simp
      with mut show False by simp
    qed
    then have "pre @ c # rest = (pre @ c # butlast rest) @ [last rest]"
      by simp
    with ok(2) new have "?RI = pre @ c # butlast rest"
      by (metis butlast_snoc)
    with ok(3) have "fails env (calls @ pre) c = None"
      using first_failure_None_mutation mut by metis
    with err show ?thesis by simp
  next
    case failed
    have T: "take n ?RI = pre @ c # rest" using failed(5) new by simp
    have bl: "take (n - 1) ?RI = butlast (pre @ c # rest)"
      using T failed(4) by (metis butlast_take)
    have rest: "rest = []"
    proof (rule ccontr)
      assume "rest \<noteq> []"
      then have "butlast (pre @ c # rest) = pre @ c # butlast rest"
        by (simp add: butlast_append)
      with bl failed(7) have "fails env (calls @ pre) c = None"
        using first_failure_None_mutation mut by metis
      with err show False by simp
    qed
    with bl failed(7) have pre_ok: "first_failure env calls pre = None"
      by (simp add: butlast_append)
    from failed(6) T rest have "first_failure env calls (pre @ [c]) = Some err" by simp
    with pre_ok mut err have "err = e"
      by (simp add: first_failure_append mutation_error_def)
    moreover have "Call_SetMetadata w \<notin> set (pre @ c # rest)" for w
    proof -
      have "set (pre @ c # rest) \<subseteq> set ?RI"
        unfolding T[symmetric] by (rule set_take_subset)
      then show ?thesis using SetMetadata_not_in_batch[of w events env] by blast
    qed
    ultimately show ?thesis using failed(1,2) rest by simp
  qed
qed

text \<open>
  Claim C7. When no tree mutation of the batch returns an error and \<open>SetMetadata\<close>
  returns one, \<open>handler\<close> returns no error, \<open>lastBlockProcessed\<close> has its advanced
  value, and the last call of the batch is the \<open>SetMetadata\<close> call that failed, made
  with that value.
\<close>

theorem C7_metadata_failure_not_fatal:
  assumes run: "handler env gm events calls = (r, gm', calls')"
    and mutations_ok: "first_failure env calls (new_calls calls calls') = None"
    and persist_fails: "\<And>before w. fails env before (Call_SetMetadata w) \<noteq> None"
  shows "r = None \<and>
         lastBlockProcessed gm' =
           Max (set (lastBlockProcessed gm # map BlockNumber (filter (\<lambda>e. \<not> Removed e) events))) \<and>
         last calls' = Call_SetMetadata (lastBlockProcessed gm') \<and>
         fails env (butlast calls') (last calls') \<noteq> None"
proof -
  let ?RI = "batch_removal_calls events @ batch_insertion_calls env events"
  let ?W = "watermark (lastBlockProcessed gm) events"
  from handler_shape[OF run] mutations_ok
  have ok: "r = None" "gm' = gm\<lparr>lastBlockProcessed := ?W\<rparr>"
      "new_calls calls calls' = ?RI @ [Call_SetMetadata ?W]"
    by auto
  have "calls' = calls @ ?RI @ [Call_SetMetadata ?W]"
    using handler_extends[OF run] ok(3) by simp
  then have "last calls' = Call_SetMetadata ?W" by simp
  then show ?thesis
    using ok persist_fails by (simp add: watermark_def)
qed

theorem C5_witness:
  "handler example_env example_gm
     [member_event 170 0 50 False, member_event 171 1 47 False, member_event 9 5 60 True] [] =
     (None, example_gm\<lparr>lastBlockProcessed := 50\<rparr>,
      [Call_rln_DeleteMembers [5], Call_Backfill 60, Call_rln_InsertMembers 0 [170],
       Call_UpdateLatestRoot 50, Call_rln_InsertMembers 1 [171], Call_UpdateLatestRoot 47,
       Call_SetMetadata 50]) \<and>
   lastBlockProcessed example_gm = 45 \<and>
   (50 :: uint64) = Max (set [45, 50, 47]) \<and>
   handler example_env example_gm [member_event 9 5 60 True] [] =
     (None, example_gm\<lparr>lastBlockProcessed := 45\<rparr>,
      [Call_rln_DeleteMembers [5], Call_Backfill 60, Call_SetMetadata 45]) \<and>
   filter (\<lambda>e. \<not> Removed e) [member_event 9 5 60 True] = []"
proof -
  have run1: "handler example_env example_gm
     [member_event 170 0 50 False, member_event 171 1 47 False, member_event 9 5 60 True] [] =
     (None, example_gm\<lparr>lastBlockProcessed := 50\<rparr>,
      [Call_rln_DeleteMembers [5], Call_Backfill 60, Call_rln_InsertMembers 0 [170],
       Call_UpdateLatestRoot 50, Call_rln_InsertMembers 1 [171], Call_UpdateLatestRoot 47,
       Call_SetMetadata 50])"
    by (simp add: handler_eval)
  have run2: "handler example_env example_gm [member_event 9 5 60 True] [] =
     (None, example_gm\<lparr>lastBlockProcessed := 45\<rparr>,
      [Call_rln_DeleteMembers [5], Call_Backfill 60, Call_SetMetadata 45])"
    by (simp add: handler_eval)
  have gm: "lastBlockProcessed example_gm = 45" by (simp add: example_gm_def)
  have f: "filter (\<lambda>e. \<not> Removed e) [member_event 9 5 60 True] = []"
    by (simp add: member_event_def)
  from C5_watermark_is_maximum[OF run1]
  have "(50 :: uint64) = Max (set [45, 50, 47])"
    by (simp add: gm member_event_def)
  moreover from C5_watermark_is_maximum[OF run2] f
  have "lastBlockProcessed (example_gm\<lparr>lastBlockProcessed := 45\<rparr>) = lastBlockProcessed example_gm"
    by blast
  ultimately show ?thesis using run1 run2 gm f by blast
qed

theorem C6_witness:
  "handler (failing_on (Call_UpdateLatestRoot 50)) example_gm
     [member_event 170 0 50 False, member_event 171 1 51 False] [] =
     (Some (collaborator_error ''failed''), example_gm,
      [] @ [Call_rln_InsertMembers 0 [170]] @ Call_UpdateLatestRoot 50 # []) \<and>
   is_mutation_call (Call_UpdateLatestRoot 50 :: int call) \<and>
   fails (failing_on (Call_UpdateLatestRoot 50)) ([] @ [Call_rln_InsertMembers 0 [170]])
     (Call_UpdateLatestRoot 50) = Some (collaborator_error ''failed'') \<and>
   lastBlockProcessed example_gm = 45"
proof -
  have run: "handler (failing_on (Call_UpdateLatestRoot 50)) example_gm
     [member_event 170 0 50 False, member_event 171 1 51 False] [] =
     (Some (collaborator_error ''failed''), example_gm,
      [] @ [Call_rln_InsertMembers 0 [170]] @ Call_UpdateLatestRoot 50 # [])"
    by (simp add: handler_eval)
  have mut: "is_mutation_call (Call_UpdateLatestRoot 50 :: int call)" by simp
  have err: "fails (failing_on (Call_UpdateLatestRoot 50)) ([] @ [Call_rln_InsertMembers 0 [170]])
     (Call_UpdateLatestRoot 50) = Some (collaborator_error ''failed'')"
    by (simp add: failing_on_def)
  have gm: "lastBlockProcessed example_gm = 45" by (simp add: example_gm_def)
  from C6_mutation_error_aborts_batch[OF run refl mut err] run mut err gm
  show ?thesis by blast
qed

theorem C7_witness:
  "handler persist_failing_env example_gm [member_event 170 0 50 False] [] =
     (None, example_gm\<lparr>lastBlockProcessed := 50\<rparr>,
      [Call_rln_InsertMembers 0 [170], Call_UpdateLatestRoot 50, Call_SetMetadata 50]) \<and>
   first_failure persist_failing_env []
     [Call_rln_InsertMembers 0 [170], Call_UpdateLatestRoot 50, Call_SetMetadata 50] = None \<and>
   fails persist_failing_env [Call_rln_InsertMembers 0 [170], Call_UpdateLatestRoot 50]
     (Call_SetMetadata 50) = Some (collaborator_error ''failed'') \<and>
   lastBlockProcessed (example_gm\<lparr>lastBlockProcessed := 50\<rparr>) = 50"
proof -
  have run: "handler persist_failing_env example_gm [member_event 170 0 50 False] [] =
     (None, example_gm\<lparr>lastBlockProcessed := 50\<rparr>,
      [Call_rln_InsertMembers 0 [170], Call_UpdateLatestRoot 50, Call_SetMetadata 50])"
    by (simp add: handler_eval)
  have ok: "first_failure persist_failing_env []
     (new_calls [] [Call_rln_InsertMembers 0 [170], Call_UpdateLatestRoot 50, Call_SetMetadata 50]) = None"
    by (simp add: new_calls_def mutation_error_def persist_failing_env_def example_env_def)
  have pf: "fails persist_failing_env before (Call_SetMetadata w) \<noteq> None" for before w
    by (simp add: persist_failing_env_def)
  have err: "fails persist_failing_env [Call_rln_InsertMembers 0 [170], Call_UpdateLatestRoot 50]
     (Call_SetMetadata 50) = Some (collaborator_error ''failed'')"
    by (simp add: persist_failing_env_def)
  from C7_metadata_failure_not_fatal[OF run ok pf]
  have "lastBlockProcessed (example_gm\<lparr>lastBlockProcessed := 50\<rparr>) = 50"
    by (simp add: example_gm_def member_event_def)
  with run ok err show ?thesis by (simp add: new_calls_def)
qed

subsection \<open>The order of the calls of a batch\<close>

lemma Backfill_blocks_append:
  "Backfill_blocks (xs @ ys) = Backfill_blocks xs @ Backfill_blocks ys"
  by (induction xs rule: Backfill_blocks.induct) simp_all

lemma UpdateLatestRoot_blocks_append:
  "UpdateLatestRoot_blocks (xs @ ys) = UpdateLatestRoot_blocks xs @ UpdateLatestRoot_blocks ys"
  by (induction xs rule: UpdateLatestRoot_blocks.induct) simp_all

lemma Backfill_blocks_insertions:
  "list_all is_insertion_call cs \<Longrightarrow> Backfill_blocks cs = []"
  by (induction cs rule: Backfill_blocks.induct) simp_all

lemma UpdateLatestRoot_blocks_removals:
  "list_all is_removal_call cs \<Longrightarrow> UpdateLatestRoot_blocks cs = []"
  by (induction cs rule: UpdateLatestRoot_blocks.induct) simp_all

lemma filter_removal_removals:
  "list_all is_removal_call cs \<Longrightarrow> filter is_removal_call cs = cs"
  by (induction cs) simp_all

lemma filter_insertion_insertions:
  "list_all is_insertion_call cs \<Longrightarrow> filter is_insertion_call cs = cs"
  by (induction cs) simp_all

lemma filter_removal_insertions:
  "list_all is_insertion_call cs \<Longrightarrow> filter is_removal_call cs = []"
  by (induction cs rule: Backfill_blocks.induct) simp_all

lemma filter_insertion_removals:
  "list_all is_removal_call cs \<Longrightarrow> filter is_insertion_call cs = []"
  by (induction cs rule: Backfill_blocks.induct) simp_all

lemma Backfill_blocks_batch:
  "Backfill_blocks (batch_removal_calls events :: 'c call list) = rev (removed_blocks events)"
proof -
  have "Backfill_blocks (concat (map (\<lambda>b. [Call_rln_DeleteMembers (g b), Call_Backfill b]) bs)
          :: 'c call list) = bs" for g and bs :: "uint64 list"
    by (induction bs) simp_all
  then show ?thesis by (simp add: batch_removal_calls_def)
qed

lemma insertion_group_present:
  "b \<in> set (inserted_blocks events) \<Longrightarrow> insertion_group events b \<noteq> []"
  by (auto simp: inserted_blocks_def set_first_occurrences insertion_group_def filter_empty_conv)

lemma UpdateLatestRoot_blocks_batch:
  "UpdateLatestRoot_blocks (batch_insertion_calls env events) = inserted_blocks events"
proof -
  have "(\<forall>b\<in>set bs. g b \<noteq> []) \<Longrightarrow>
        UpdateLatestRoot_blocks (concat (map (\<lambda>b. insertion_calls_of env (b, g b)) bs)) = bs"
    for g and bs :: "uint64 list"
    by (induction bs)
       (auto simp: insertion_calls_of_def UpdateLatestRoot_blocks_append split: list.splits)
  then show ?thesis
    using insertion_group_present by (simp add: batch_insertion_calls_def)
qed

lemma prefix_Backfill_blocks:
  "prefix xs ys \<Longrightarrow> prefix (Backfill_blocks xs) (Backfill_blocks ys)"
  by (auto simp: prefix_def Backfill_blocks_append)

lemma prefix_UpdateLatestRoot_blocks:
  "prefix xs ys \<Longrightarrow> prefix (UpdateLatestRoot_blocks xs) (UpdateLatestRoot_blocks ys)"
  by (auto simp: prefix_def UpdateLatestRoot_blocks_append)

lemma prefix_sorted_wrt: "prefix xs ys \<Longrightarrow> sorted_wrt P ys \<Longrightarrow> sorted_wrt P xs"
  by (auto simp: prefix_def sorted_wrt_append)

lemma handler_prefix:
  assumes run: "handler env gm events calls = (r, gm', calls')"
  shows "prefix (new_calls calls calls')
           (batch_removal_calls events @ batch_insertion_calls env events @
            [Call_SetMetadata (watermark (lastBlockProcessed gm) events)])"
    and "r = None \<Longrightarrow> new_calls calls calls' =
           batch_removal_calls events @ batch_insertion_calls env events @
            [Call_SetMetadata (watermark (lastBlockProcessed gm) events)]"
proof -
  let ?RI = "batch_removal_calls events @ batch_insertion_calls env events"
  let ?S = "[Call_SetMetadata (watermark (lastBlockProcessed gm) events)] :: 'a call list"
  from handler_shape[OF run] consider
    (ok) "r = None" "new_calls calls calls' = ?RI @ ?S"
  | (failed) n err where "r = Some err" "new_calls calls calls' = take n ?RI"
    by (elim disjE conjE exE) blast+
  then have "prefix (new_calls calls calls') (?RI @ ?S) \<and>
             (r = None \<longrightarrow> new_calls calls calls' = ?RI @ ?S)"
  proof cases
    case ok
    then show ?thesis by simp
  next
    case failed
    have "prefix (take n ?RI) ?RI" by (rule take_is_prefix)
    then have "prefix (take n ?RI) (?RI @ ?S)" by (rule prefix_prefix)
    then show ?thesis using failed by simp
  qed
  then show "prefix (new_calls calls calls')
           (batch_removal_calls events @ batch_insertion_calls env events @
            [Call_SetMetadata (watermark (lastBlockProcessed gm) events)])"
    and "r = None \<Longrightarrow> new_calls calls calls' =
           batch_removal_calls events @ batch_insertion_calls env events @
            [Call_SetMetadata (watermark (lastBlockProcessed gm) events)]"
    by simp_all
qed

lemma insertion_not_removal: "is_insertion_call c \<Longrightarrow> \<not> is_removal_call c"
  by (cases c) simp_all

lemma prefix_nth: "prefix xs ys \<Longrightarrow> k < length xs \<Longrightarrow> xs ! k = ys ! k"
  by (auto simp: prefix_def nth_append)

lemma prefix_take_length:
  assumes "prefix xs (ys @ zs)" and "length ys \<le> length xs"
  shows "take (length ys) xs = ys"
proof -
  from assms(1) obtain ws where eq: "ys @ zs = xs @ ws"
    by (auto simp: prefix_def)
  have a: "take (length ys) (xs @ ws) = take (length ys) xs"
    using assms(2) by simp
  have b: "take (length ys) (ys @ zs) = ys" by simp
  show ?thesis using a b unfolding eq by (rule trans[OF sym])
qed

lemma first_failure_append_None:
  "first_failure env calls (as @ bs) = None \<Longrightarrow> first_failure env calls as = None"
  by (simp add: first_failure_append split: option.splits)

lemma handler_removals_done:
  fixes env :: "'a env"
  assumes run: "handler env gm events calls = (r, gm', calls')"
    and longer: "length (batch_removal_calls events :: 'a call list) < length (new_calls calls calls')"
  shows "first_failure env calls (batch_removal_calls events) = None"
proof -
  let ?R = "batch_removal_calls events :: 'a call list"
  let ?I = "batch_insertion_calls env events"
  from handler_shape[OF run] consider
    (ok) "first_failure env calls (?R @ ?I) = None"
  | (failed) n where "n \<le> length (?R @ ?I)" "new_calls calls calls' = take n (?R @ ?I)"
      "first_failure env calls (take (n - 1) (?R @ ?I)) = None"
    by (elim disjE conjE exE) blast+
  then show ?thesis
  proof cases
    case ok
    then show ?thesis by (rule first_failure_append_None)
  next
    case failed
    from failed(1,2) longer have "length ?R < n" by simp
    then have "take (n - 1) (?R @ ?I) = ?R @ take (n - 1 - length ?R) ?I" by simp
    with failed(3) show ?thesis by (simp add: first_failure_append_None)
  qed
qed

lemma InsertMembers_prefix:
  assumes run: "InsertMembers env toInsert calls = (r, calls')"
  shows "prefix (new_calls calls calls') (concat (map (insertion_calls_of env) toInsert))"
    and "r = None \<Longrightarrow> new_calls calls calls' = concat (map (insertion_calls_of env) toInsert)"
proof -
  let ?I = "concat (map (insertion_calls_of env) toInsert)"
  have run0: "run_calls env ?I calls = (r, calls')"
    using run by (simp add: InsertMembers_def oldest_first_def InsertMembers_loop_run)
  from run_calls_shape[OF run0] obtain n where
    n1: "calls' = calls @ take n ?I" and n3: "r = None \<longrightarrow> take n ?I = ?I"
    by (elim exE conjE)
  have nc: "new_calls calls calls' = take n ?I"
    unfolding new_calls_def n1 by simp
  show "prefix (new_calls calls calls') ?I"
    unfolding nc by (rule take_is_prefix)
  show "new_calls calls calls' = ?I" if "r = None"
    using n3 that nc by simp
qed

lemma lowest_first_calls:
  assumes "\<forall>e\<in>set (snd p). Index (hd (snd p)) \<le> Index e"
  shows "insertion_calls_of env p = spec_insertion_calls_of env p"
proof (cases "snd p")
  case Nil
  then show ?thesis by (simp add: insertion_calls_of_def spec_insertion_calls_of_def)
next
  case (Cons first others)
  have "Min (set (map Index (snd p))) = Index first"
  proof (rule Min_eqI)
    show "finite (set (map Index (snd p)))" by simp
    show "Index first \<in> set (map Index (snd p))" using Cons by simp
    show "Index first \<le> y" if "y \<in> set (map Index (snd p))" for y
      using assms that Cons by auto
  qed
  then show ?thesis
    using Cons by (simp add: insertion_calls_of_def spec_insertion_calls_of_def)
qed

lemma startIndex_of_word: "startIndex_of i = word_of_int i"
  by (simp add: startIndex_of_def uint_of_int64_def big_Int64_def Let_def abs_if)

lemma uint_startIndex_of: "uint (startIndex_of i) = i mod 2 ^ 64"
  by (simp add: startIndex_of_word uint_word_of_int)

lemma failing_last_call:
  assumes ff: "first_failure env calls (pre @ [c]) = Some err"
    and ok: "first_failure env calls pre = None"
  shows "is_mutation_call c \<and> fails env (calls @ pre) c = Some err"
proof -
  from ff ok have "mutation_error env (calls @ pre) c = Some err"
    by (simp add: first_failure_append split: option.splits)
  then show ?thesis
    by (simp add: mutation_error_def split: if_splits)
qed

lemma handler_outcomes:
  fixes env :: "'a env"
  assumes run: "handler env gm events calls = (r, gm', calls')"
  shows "(r = None \<and>
          new_calls calls calls' =
            batch_removal_calls events @ batch_insertion_calls env events @
            [Call_SetMetadata (watermark (lastBlockProcessed gm) events)] \<and>
          first_failure env calls
            (batch_removal_calls events @ batch_insertion_calls env events) = None) \<or>
         (\<exists>pre c err. r = Some err \<and> new_calls calls calls' = pre @ [c] \<and>
            prefix (pre @ [c]) (batch_removal_calls events) \<and>
            first_failure env calls pre = None \<and>
            is_mutation_call c \<and> fails env (calls @ pre) c = Some err) \<or>
         (\<exists>pre c err. r = Some err \<and>
            new_calls calls calls' = batch_removal_calls events @ pre @ [c] \<and>
            prefix (pre @ [c]) (batch_insertion_calls env events) \<and>
            first_failure env calls (batch_removal_calls events @ pre) = None \<and>
            is_mutation_call c \<and>
            fails env (calls @ batch_removal_calls events @ pre) c = Some err)"
proof -
  let ?R = "batch_removal_calls events :: 'a call list"
  let ?I = "batch_insertion_calls env events"
  let ?new = "new_calls calls calls'"
  from handler_shape[OF run] consider
    (ok) "r = None"
      "?new = (?R @ ?I) @ [Call_SetMetadata (watermark (lastBlockProcessed gm) events)]"
      "first_failure env calls (?R @ ?I) = None"
  | (failed) n err where "r = Some err" "0 < n" "n \<le> length (?R @ ?I)"
      "?new = take n (?R @ ?I)" "first_failure env calls (take n (?R @ ?I)) = Some err"
      "first_failure env calls (take (n - 1) (?R @ ?I)) = None"
    by (elim disjE conjE exE) blast+
  then show ?thesis
  proof cases
    case ok
    then show ?thesis by simp
  next
    case failed
    define m where "m = n - 1"
    have n: "n = Suc m" using failed(2) by (simp add: m_def)
    have m_lt: "m < length (?R @ ?I)" using failed(3) n by simp
    define c where "c = (?R @ ?I) ! m"
    have split: "take n (?R @ ?I) = take m (?R @ ?I) @ [c]"
      unfolding n c_def by (rule take_Suc_conv_app_nth[OF m_lt])
    have pre_ok: "first_failure env calls (take m (?R @ ?I)) = None"
      using failed(6) by (simp add: m_def)
    have ff: "first_failure env calls (take m (?R @ ?I) @ [c]) = Some err"
      using failed(5) unfolding split .
    from failing_last_call[OF ff pre_ok]
    have mut: "is_mutation_call c" and err: "fails env (calls @ take m (?R @ ?I)) c = Some err"
      by simp_all
    show ?thesis
    proof (cases "n \<le> length ?R")
      case True
      have tR: "take n (?R @ ?I) = take n ?R" using True by simp
      have tm: "take m (?R @ ?I) = take m ?R" using True n by simp
      have eqR: "take n ?R = take m ?R @ [c]"
        using split unfolding tR tm .
      have new: "?new = take m ?R @ [c]"
        using failed(4) unfolding tR eqR .
      have pre: "prefix (take m ?R @ [c]) ?R"
        unfolding eqR[symmetric] by (rule take_is_prefix)
      have "\<exists>pre c err. r = Some err \<and> ?new = pre @ [c] \<and> prefix (pre @ [c]) ?R \<and>
            first_failure env calls pre = None \<and>
            is_mutation_call c \<and> fails env (calls @ pre) c = Some err"
        using failed(1) new pre pre_ok mut err unfolding tm by blast
      then show ?thesis by blast
    next
      case False
      then have gt: "length ?R \<le> m" using n by simp
      have tm: "take m (?R @ ?I) = ?R @ take (m - length ?R) ?I" using gt by simp
      have tn: "take n (?R @ ?I) = ?R @ take (n - length ?R) ?I" using False by simp
      have sp: "take (n - length ?R) ?I = take (m - length ?R) ?I @ [c]"
        using split unfolding tm tn by simp
      have new: "?new = ?R @ take (m - length ?R) ?I @ [c]"
        using failed(4) unfolding tn sp .
      have pre: "prefix (take (m - length ?R) ?I @ [c]) ?I"
        unfolding sp[symmetric] by (rule take_is_prefix)
      have pre_ok': "first_failure env calls (?R @ take (m - length ?R) ?I) = None"
        using pre_ok unfolding tm .
      have err': "fails env (calls @ ?R @ take (m - length ?R) ?I) c = Some err"
        using err unfolding tm .
      have "\<exists>pre c err. r = Some err \<and> ?new = ?R @ pre @ [c] \<and> prefix (pre @ [c]) ?I \<and>
            first_failure env calls (?R @ pre) = None \<and>
            is_mutation_call c \<and> fails env (calls @ ?R @ pre) c = Some err"
        using failed(1) new pre pre_ok' mut err' by blast
      then show ?thesis by blast
    qed
  qed
qed

lemma prefix_list_all: "prefix xs ys \<Longrightarrow> list_all P ys \<Longrightarrow> list_all P xs"
  by (auto simp: prefix_def)

lemma removal_mutation_is_delete:
  "is_removal_call c \<Longrightarrow> is_mutation_call c \<Longrightarrow> \<exists>indexes. c = Call_rln_DeleteMembers indexes"
  by (cases c) simp_all

text \<open>
  Claim C2, as amended. The removal groups are processed from the block recorded last in
  the batch back to the block recorded first: for each block in the reverse order of first
  arrival, \<open>DeleteMembers\<close> is called with the indexes of the block's removed events and
  then \<open>Backfill\<close> with the block number. Either all these calls are made and no
  deletion fails, or the calls of the batch end with the first \<open>DeleteMembers\<close> call that
  fails, every call before it is the expected one and has succeeded, and \<open>handler\<close>
  returns the error of that call. When the removed events arrive in non-decreasing block
  order, the \<open>Backfill\<close> calls are in strictly decreasing block order.
\<close>

theorem C2_removals_newest_recorded_first:
  fixes env :: "'a env"
  assumes run: "handler env gm events calls = (r, gm', calls')"
  shows "prefix (filter is_removal_call (new_calls calls calls'))
           (concat (map (\<lambda>b. [Call_rln_DeleteMembers (removal_group events b), Call_Backfill b])
              (rev (removed_blocks events)))) \<and>
         (r = None \<longrightarrow>
            filter is_removal_call (new_calls calls calls') =
              concat (map (\<lambda>b. [Call_rln_DeleteMembers (removal_group events b), Call_Backfill b])
                (rev (removed_blocks events))) \<and>
            Backfill_blocks (new_calls calls calls') = rev (removed_blocks events)) \<and>
         (sorted (map BlockNumber (filter Removed events)) \<longrightarrow>
            sorted_wrt (>) (Backfill_blocks (new_calls calls calls'))) \<and>
         ((filter is_removal_call (new_calls calls calls') =
             concat (map (\<lambda>b. [Call_rln_DeleteMembers (removal_group events b), Call_Backfill b])
               (rev (removed_blocks events))) \<and>
           first_failure env calls (filter is_removal_call (new_calls calls calls')) = None) \<or>
          (\<exists>pre indexes err.
             new_calls calls calls' = pre @ [Call_rln_DeleteMembers indexes] \<and>
             prefix (pre @ [Call_rln_DeleteMembers indexes])
               (concat (map (\<lambda>b. [Call_rln_DeleteMembers (removal_group events b), Call_Backfill b])
                  (rev (removed_blocks events)))) \<and>
             first_failure env calls pre = None \<and>
             fails env (calls @ pre) (Call_rln_DeleteMembers indexes) = Some err \<and>
             r = Some err))"
proof -
  let ?R = "batch_removal_calls events :: 'a call list"
  let ?I = "batch_insertion_calls env events"
  let ?S = "[Call_SetMetadata (watermark (lastBlockProcessed gm) events)] :: 'a call list"
  let ?new = "new_calls calls calls'"
  have R_all: "list_all is_removal_call ?R" by (rule batch_removal_calls_all)
  have I_all: "list_all is_insertion_call ?I" by (rule batch_insertion_calls_all)
  have fR: "filter is_removal_call (?R @ ?I @ ?S) = ?R"
    by (simp add: filter_removal_removals R_all filter_removal_insertions I_all)
  have bR: "Backfill_blocks (?R @ ?I @ ?S) = rev (removed_blocks events)"
    by (simp add: Backfill_blocks_append Backfill_blocks_batch Backfill_blocks_insertions I_all)
  have pre: "prefix ?new (?R @ ?I @ ?S)" by (rule handler_prefix(1)[OF run])
  have p1: "prefix (filter is_removal_call ?new) ?R"
    using filter_mono_prefix[OF pre, of is_removal_call] fR by simp
  have p2: "prefix (Backfill_blocks ?new) (rev (removed_blocks events))"
    using prefix_Backfill_blocks[OF pre] bR by simp
  have full: "filter is_removal_call ?new = ?R \<and>
              Backfill_blocks ?new = rev (removed_blocks events)" if "r = None"
    using handler_prefix(2)[OF run that] fR bR by simp
  have ord: "sorted_wrt (>) (Backfill_blocks ?new)"
    if s: "sorted (map BlockNumber (filter Removed events))"
  proof -
    have "sorted_wrt (<) (removed_blocks events)"
      unfolding removed_blocks_def by (rule first_occurrences_strictly_sorted[OF s])
    then have "sorted_wrt (>) (rev (removed_blocks events))"
      by (simp add: sorted_wrt_rev)
    with p2 show ?thesis by (rule prefix_sorted_wrt)
  qed
  have stop: "(filter is_removal_call ?new = ?R \<and>
               first_failure env calls (filter is_removal_call ?new) = None) \<or>
          (\<exists>pre indexes err.
             ?new = pre @ [Call_rln_DeleteMembers indexes] \<and>
             prefix (pre @ [Call_rln_DeleteMembers indexes]) ?R \<and>
             first_failure env calls pre = None \<and>
             fails env (calls @ pre) (Call_rln_DeleteMembers indexes) = Some err \<and>
             r = Some err)"
  proof -
    from handler_outcomes[OF run] consider
      (ok) "?new = ?R @ ?I @ ?S" "first_failure env calls (?R @ ?I) = None"
    | (removal) pre c err where "r = Some err" "?new = pre @ [c]" "prefix (pre @ [c]) ?R"
        "first_failure env calls pre = None" "is_mutation_call c"
        "fails env (calls @ pre) c = Some err"
    | (insertion) pre c where "?new = ?R @ pre @ [c]" "prefix (pre @ [c]) ?I"
        "first_failure env calls (?R @ pre) = None"
      by (elim disjE conjE exE) blast+
    then show ?thesis
    proof cases
      case ok
      have "filter is_removal_call ?new = ?R" unfolding ok(1) by (rule fR)
      moreover have "first_failure env calls ?R = None"
        using ok(2) by (rule first_failure_append_None)
      ultimately show ?thesis by simp
    next
      case removal
      have "list_all is_removal_call (pre @ [c])"
        using removal(3) R_all by (rule prefix_list_all)
      then have "is_removal_call c" by simp
      from removal_mutation_is_delete[OF this removal(5)]
      obtain indexes where c: "c = Call_rln_DeleteMembers indexes" by blast
      show ?thesis
        using removal(1,2,3,4,6) unfolding c by blast
    next
      case insertion
      have "list_all is_insertion_call (pre @ [c])"
        using insertion(2) I_all by (rule prefix_list_all)
      then have "filter is_removal_call (pre @ [c]) = []"
        by (rule filter_removal_insertions)
      then have "filter is_removal_call (?R @ pre @ [c]) = ?R"
        using filter_removal_removals[OF R_all] by simp
      then have "filter is_removal_call ?new = ?R" unfolding insertion(1) .
      moreover have "first_failure env calls ?R = None"
        using insertion(3) by (rule first_failure_append_None)
      ultimately show ?thesis by simp
    qed
  qed
  have a: "prefix (filter is_removal_call ?new)
           (concat (map (\<lambda>b. [Call_rln_DeleteMembers (removal_group events b), Call_Backfill b])
              (rev (removed_blocks events))))"
    using p1 by (simp only: batch_removal_calls_def)
  have b: "r = None \<longrightarrow>
            filter is_removal_call ?new =
              concat (map (\<lambda>b. [Call_rln_DeleteMembers (removal_group events b), Call_Backfill b])
                (rev (removed_blocks events))) \<and>
            Backfill_blocks ?new = rev (removed_blocks events)"
    using full by (simp only: batch_removal_calls_def) blast
  have c: "sorted (map BlockNumber (filter Removed events)) \<longrightarrow>
            sorted_wrt (>) (Backfill_blocks ?new)"
    using ord by blast
  have d: "(filter is_removal_call ?new =
             concat (map (\<lambda>b. [Call_rln_DeleteMembers (removal_group events b), Call_Backfill b])
               (rev (removed_blocks events))) \<and>
           first_failure env calls (filter is_removal_call ?new) = None) \<or>
          (\<exists>pre indexes err.
             ?new = pre @ [Call_rln_DeleteMembers indexes] \<and>
             prefix (pre @ [Call_rln_DeleteMembers indexes])
               (concat (map (\<lambda>b. [Call_rln_DeleteMembers (removal_group events b), Call_Backfill b])
                  (rev (removed_blocks events)))) \<and>
             first_failure env calls pre = None \<and>
             fails env (calls @ pre) (Call_rln_DeleteMembers indexes) = Some err \<and>
             r = Some err)"
    using stop by (simp only: batch_removal_calls_def)
  show ?thesis by (rule conjI[OF a conjI[OF b conjI[OF c d]]])
qed

text \<open>
  Removed events that arrive for block 110 and then for block 100: \<open>Backfill\<close> is called
  for block 100 first and for block 110 after it.
\<close>

theorem C2_counterexample:
  "Backfill_blocks (snd (snd (handler example_env example_gm
     [member_event 1 3 110 True, member_event 2 4 100 True] []))) = [100, 110] \<and>
   \<not> sorted_wrt (>) (Backfill_blocks (snd (snd (handler example_env example_gm
     [member_event 1 3 110 True, member_event 2 4 100 True] []))))"
  by (simp add: handler_eval)

theorem C2_witness:
  "handler example_env example_gm
     [member_event 1 1 100 True, member_event 2 2 105 True, member_event 3 3 110 True] [] =
     (None, example_gm\<lparr>lastBlockProcessed := 45\<rparr>,
      [Call_rln_DeleteMembers [3], Call_Backfill 110, Call_rln_DeleteMembers [2],
       Call_Backfill 105, Call_rln_DeleteMembers [1], Call_Backfill 100, Call_SetMetadata 45]) \<and>
   sorted (map BlockNumber (filter Removed
     [member_event 1 1 100 True, member_event 2 2 105 True, member_event 3 3 110 True])) \<and>
   Backfill_blocks (new_calls []
      [Call_rln_DeleteMembers [3], Call_Backfill 110, Call_rln_DeleteMembers [2],
       Call_Backfill 105, Call_rln_DeleteMembers [1], Call_Backfill 100,
       Call_SetMetadata 45 :: int call]) = [110, 105, 100] \<and>
   sorted_wrt (>) (Backfill_blocks (new_calls []
      [Call_rln_DeleteMembers [3], Call_Backfill 110, Call_rln_DeleteMembers [2],
       Call_Backfill 105, Call_rln_DeleteMembers [1], Call_Backfill 100,
       Call_SetMetadata 45 :: int call])) \<and>
   handler (failing_on (Call_rln_DeleteMembers [2])) example_gm
     [member_event 1 1 100 True, member_event 2 2 105 True, member_event 3 3 110 True] [] =
     (Some (collaborator_error ''failed''), example_gm,
      [Call_rln_DeleteMembers [3], Call_Backfill 110, Call_rln_DeleteMembers [2]])"
proof -
  let ?E = "[member_event 1 1 100 True, member_event 2 2 105 True, member_event 3 3 110 True]"
  let ?C = "[Call_rln_DeleteMembers [3], Call_Backfill 110, Call_rln_DeleteMembers [2],
       Call_Backfill 105, Call_rln_DeleteMembers [1], Call_Backfill 100,
       Call_SetMetadata 45 :: int call]"
  have run: "handler example_env example_gm ?E [] =
     (None, example_gm\<lparr>lastBlockProcessed := 45\<rparr>, ?C)"
    by (simp add: handler_eval)
  have s: "sorted (map BlockNumber (filter Removed ?E))"
    by (simp add: member_event_def)
  have b: "Backfill_blocks (new_calls [] ?C) = [110, 105, 100]"
    by (simp add: new_calls_def)
  have stopped: "handler (failing_on (Call_rln_DeleteMembers [2])) example_gm ?E [] =
     (Some (collaborator_error ''failed''), example_gm,
      [Call_rln_DeleteMembers [3], Call_Backfill 110, Call_rln_DeleteMembers [2]])"
    by (simp add: handler_eval)
  from C2_removals_newest_recorded_first[OF run] s
  have "sorted_wrt (>) (Backfill_blocks (new_calls [] ?C))"
    by blast
  with run s b stopped show ?thesis by blast
qed


text \<open>
  Claim C3, as amended. The insertion groups are processed in the order in which their
  blocks first arrive in the batch: for each block in that order, the block's commitments
  are inserted and then \<open>UpdateLatestRoot\<close> is called with the block number, once per
  block. One of three things happens. \<open>handler\<close> returns no error, all these calls are
  made and no call on the tree or the tracker fails. Or all removal calls are made, the
  insertion calls end with the first \<open>InsertMembers\<close> or \<open>UpdateLatestRoot\<close> call
  that fails, every call before it is the expected one and has succeeded, and \<open>handler\<close>
  returns the error of that call. Or a deletion fails, \<open>handler\<close> returns its error and
  no insertion call is made. When the events that are not removed arrive in non-decreasing
  block order, the \<open>UpdateLatestRoot\<close> calls are in strictly increasing block order.
\<close>

theorem C3_insertions_in_arrival_order:
  fixes env :: "'a env"
  assumes run: "handler env gm events calls = (r, gm', calls')"
  shows "prefix (filter is_insertion_call (new_calls calls calls'))
           (concat (map (\<lambda>b. insertion_calls_of env (b, insertion_group events b))
              (inserted_blocks events))) \<and>
         (r = None \<longrightarrow>
            filter is_insertion_call (new_calls calls calls') =
              concat (map (\<lambda>b. insertion_calls_of env (b, insertion_group events b))
                (inserted_blocks events)) \<and>
            UpdateLatestRoot_blocks (new_calls calls calls') = inserted_blocks events) \<and>
         (sorted (map BlockNumber (filter (\<lambda>e. \<not> Removed e) events)) \<longrightarrow>
            sorted_wrt (<) (UpdateLatestRoot_blocks (new_calls calls calls'))) \<and>
         ((r = None \<and>
           filter is_insertion_call (new_calls calls calls') =
             concat (map (\<lambda>b. insertion_calls_of env (b, insertion_group events b))
               (inserted_blocks events)) \<and>
           first_failure env calls (new_calls calls calls') = None) \<or>
          (\<exists>pre c err.
             r = Some err \<and>
             new_calls calls calls' = batch_removal_calls events @ pre @ [c] \<and>
             filter is_insertion_call (new_calls calls calls') = pre @ [c] \<and>
             prefix (pre @ [c])
               (concat (map (\<lambda>b. insertion_calls_of env (b, insertion_group events b))
                  (inserted_blocks events))) \<and>
             first_failure env calls (batch_removal_calls events @ pre) = None \<and>
             fails env (calls @ batch_removal_calls events @ pre) c = Some err) \<or>
          (\<exists>pre indexes err.
             r = Some err \<and>
             new_calls calls calls' = pre @ [Call_rln_DeleteMembers indexes] \<and>
             filter is_insertion_call (new_calls calls calls') = [] \<and>
             first_failure env calls pre = None \<and>
             fails env (calls @ pre) (Call_rln_DeleteMembers indexes) = Some err))"
proof -
  let ?R = "batch_removal_calls events :: 'a call list"
  let ?I = "batch_insertion_calls env events"
  let ?S = "[Call_SetMetadata (watermark (lastBlockProcessed gm) events)] :: 'a call list"
  let ?new = "new_calls calls calls'"
  have R_all: "list_all is_removal_call ?R" by (rule batch_removal_calls_all)
  have I_all: "list_all is_insertion_call ?I" by (rule batch_insertion_calls_all)
  have fI: "filter is_insertion_call (?R @ ?I @ ?S) = ?I"
    by (simp add: filter_insertion_insertions I_all filter_insertion_removals R_all)
  have uI: "UpdateLatestRoot_blocks (?R @ ?I @ ?S) = inserted_blocks events"
    by (simp add: UpdateLatestRoot_blocks_append UpdateLatestRoot_blocks_batch
          UpdateLatestRoot_blocks_removals R_all)
  have pre: "prefix ?new (?R @ ?I @ ?S)" by (rule handler_prefix(1)[OF run])
  have p1: "prefix (filter is_insertion_call ?new) ?I"
    using filter_mono_prefix[OF pre, of is_insertion_call] fI by simp
  have p2: "prefix (UpdateLatestRoot_blocks ?new) (inserted_blocks events)"
    using prefix_UpdateLatestRoot_blocks[OF pre] uI by simp
  have full: "filter is_insertion_call ?new = ?I \<and>
              UpdateLatestRoot_blocks ?new = inserted_blocks events" if "r = None"
    using handler_prefix(2)[OF run that] fI uI by simp
  have ord: "sorted_wrt (<) (UpdateLatestRoot_blocks ?new)"
    if s: "sorted (map BlockNumber (filter (\<lambda>e. \<not> Removed e) events))"
  proof -
    have "sorted_wrt (<) (inserted_blocks events)"
      unfolding inserted_blocks_def by (rule first_occurrences_strictly_sorted[OF s])
    with p2 show ?thesis by (rule prefix_sorted_wrt)
  qed
  have stop: "(r = None \<and> filter is_insertion_call ?new = ?I \<and>
               first_failure env calls ?new = None) \<or>
          (\<exists>pre c err.
             r = Some err \<and> ?new = ?R @ pre @ [c] \<and>
             filter is_insertion_call ?new = pre @ [c] \<and> prefix (pre @ [c]) ?I \<and>
             first_failure env calls (?R @ pre) = None \<and>
             fails env (calls @ ?R @ pre) c = Some err) \<or>
          (\<exists>pre indexes err.
             r = Some err \<and> ?new = pre @ [Call_rln_DeleteMembers indexes] \<and>
             filter is_insertion_call ?new = [] \<and>
             first_failure env calls pre = None \<and>
             fails env (calls @ pre) (Call_rln_DeleteMembers indexes) = Some err)"
  proof -
    from handler_outcomes[OF run] consider
      (ok) "r = None" "?new = ?R @ ?I @ ?S" "first_failure env calls (?R @ ?I) = None"
    | (removal) pre c err where "r = Some err" "?new = pre @ [c]" "prefix (pre @ [c]) ?R"
        "first_failure env calls pre = None" "is_mutation_call c"
        "fails env (calls @ pre) c = Some err"
    | (insertion) pre c err where "r = Some err" "?new = ?R @ pre @ [c]"
        "prefix (pre @ [c]) ?I" "first_failure env calls (?R @ pre) = None"
        "fails env (calls @ ?R @ pre) c = Some err"
      by (elim disjE conjE exE) blast+
    then show ?thesis
    proof cases
      case ok
      have f: "filter is_insertion_call ?new = ?I" unfolding ok(2) by (rule fI)
      have "first_failure env calls ((?R @ ?I) @ ?S) = None"
        by (simp only: first_failure_append[of env calls "?R @ ?I"] ok(3))
           (simp add: mutation_error_def)
      then have "first_failure env calls ?new = None" unfolding ok(2) by simp
      with ok(1) f show ?thesis by simp
    next
      case removal
      have all: "list_all is_removal_call (pre @ [c])"
        using removal(3) R_all by (rule prefix_list_all)
      then have "is_removal_call c" by simp
      from removal_mutation_is_delete[OF this removal(5)]
      obtain indexes where c: "c = Call_rln_DeleteMembers indexes" by blast
      have "filter is_insertion_call (pre @ [c]) = []"
        using all by (rule filter_insertion_removals)
      then have f: "filter is_insertion_call ?new = []" unfolding removal(2) .
      have "\<exists>pre indexes err.
             r = Some err \<and> ?new = pre @ [Call_rln_DeleteMembers indexes] \<and>
             filter is_insertion_call ?new = [] \<and>
             first_failure env calls pre = None \<and>
             fails env (calls @ pre) (Call_rln_DeleteMembers indexes) = Some err"
        using removal(1,2,4,6) f unfolding c by blast
      then show ?thesis by blast
    next
      case insertion
      have "list_all is_insertion_call (pre @ [c])"
        using insertion(3) I_all by (rule prefix_list_all)
      then have "filter is_insertion_call (pre @ [c]) = pre @ [c]"
        by (rule filter_insertion_insertions)
      then have "filter is_insertion_call (?R @ pre @ [c]) = pre @ [c]"
        using filter_insertion_removals[OF R_all] by simp
      then have f: "filter is_insertion_call ?new = pre @ [c]" unfolding insertion(2) .
      have "\<exists>pre c err.
             r = Some err \<and> ?new = ?R @ pre @ [c] \<and>
             filter is_insertion_call ?new = pre @ [c] \<and> prefix (pre @ [c]) ?I \<and>
             first_failure env calls (?R @ pre) = None \<and>
             fails env (calls @ ?R @ pre) c = Some err"
        using insertion f by blast
      then show ?thesis by blast
    qed
  qed
  have a: "prefix (filter is_insertion_call ?new)
           (concat (map (\<lambda>b. insertion_calls_of env (b, insertion_group events b))
              (inserted_blocks events)))"
    using p1 by (simp only: batch_insertion_calls_def)
  have b: "r = None \<longrightarrow>
            filter is_insertion_call ?new =
              concat (map (\<lambda>b. insertion_calls_of env (b, insertion_group events b))
                (inserted_blocks events)) \<and>
            UpdateLatestRoot_blocks ?new = inserted_blocks events"
    using full by (simp only: batch_insertion_calls_def) blast
  have c: "sorted (map BlockNumber (filter (\<lambda>e. \<not> Removed e) events)) \<longrightarrow>
            sorted_wrt (<) (UpdateLatestRoot_blocks ?new)"
    using ord by blast
  have d: "(r = None \<and>
           filter is_insertion_call ?new =
             concat (map (\<lambda>b. insertion_calls_of env (b, insertion_group events b))
               (inserted_blocks events)) \<and>
           first_failure env calls ?new = None) \<or>
          (\<exists>pre c err.
             r = Some err \<and>
             ?new = batch_removal_calls events @ pre @ [c] \<and>
             filter is_insertion_call ?new = pre @ [c] \<and>
             prefix (pre @ [c])
               (concat (map (\<lambda>b. insertion_calls_of env (b, insertion_group events b))
                  (inserted_blocks events))) \<and>
             first_failure env calls (batch_removal_calls events @ pre) = None \<and>
             fails env (calls @ batch_removal_calls events @ pre) c = Some err) \<or>
          (\<exists>pre indexes err.
             r = Some err \<and>
             ?new = pre @ [Call_rln_DeleteMembers indexes] \<and>
             filter is_insertion_call ?new = [] \<and>
             first_failure env calls pre = None \<and>
             fails env (calls @ pre) (Call_rln_DeleteMembers indexes) = Some err)"
    using stop by (simp only: batch_insertion_calls_def)
  show ?thesis by (rule conjI[OF a conjI[OF b conjI[OF c d]]])
qed

text \<open>
  Events that arrive for the blocks 105, 100 and 110: \<open>UpdateLatestRoot\<close> is called in
  that order, which is not increasing.
\<close>

theorem C3_counterexample:
  "UpdateLatestRoot_blocks (snd (snd (handler example_env example_gm
     [member_event 1 3 105 False, member_event 2 4 100 False, member_event 3 5 110 False] []))) =
     [105, 100, 110] \<and>
   \<not> sorted_wrt (<) (UpdateLatestRoot_blocks (snd (snd (handler example_env example_gm
     [member_event 1 3 105 False, member_event 2 4 100 False, member_event 3 5 110 False] []))))"
  by (simp add: handler_eval)

theorem C3_witness:
  "handler example_env example_gm
     [member_event 1 3 100 False, member_event 2 4 100 False, member_event 3 5 105 False,
      member_event 4 6 110 False] [] =
     (None, example_gm\<lparr>lastBlockProcessed := 110\<rparr>,
      [Call_rln_InsertMembers 3 [1, 2], Call_UpdateLatestRoot 100,
       Call_rln_InsertMembers 5 [3], Call_UpdateLatestRoot 105,
       Call_rln_InsertMembers 6 [4], Call_UpdateLatestRoot 110, Call_SetMetadata 110]) \<and>
   sorted (map BlockNumber (filter (\<lambda>e. \<not> Removed e)
     [member_event 1 3 100 False, member_event 2 4 100 False, member_event 3 5 105 False,
      member_event 4 6 110 False])) \<and>
   UpdateLatestRoot_blocks (new_calls []
      [Call_rln_InsertMembers 3 [1, 2], Call_UpdateLatestRoot 100,
       Call_rln_InsertMembers 5 [3], Call_UpdateLatestRoot 105,
       Call_rln_InsertMembers 6 [4], Call_UpdateLatestRoot 110,
       Call_SetMetadata 110 :: int call]) = [100, 105, 110] \<and>
   sorted_wrt (<) (UpdateLatestRoot_blocks (new_calls []
      [Call_rln_InsertMembers 3 [1, 2], Call_UpdateLatestRoot 100,
       Call_rln_InsertMembers 5 [3], Call_UpdateLatestRoot 105,
       Call_rln_InsertMembers 6 [4], Call_UpdateLatestRoot 110,
       Call_SetMetadata 110 :: int call])) \<and>
   handler (failing_on (Call_UpdateLatestRoot 105)) example_gm
     [member_event 1 3 100 False, member_event 2 4 100 False, member_event 3 5 105 False,
      member_event 4 6 110 False] [] =
     (Some (collaborator_error ''failed''), example_gm,
      [Call_rln_InsertMembers 3 [1, 2], Call_UpdateLatestRoot 100,
       Call_rln_InsertMembers 5 [3], Call_UpdateLatestRoot 105])"
proof -
  let ?E = "[member_event 1 3 100 False, member_event 2 4 100 False, member_event 3 5 105 False,
      member_event 4 6 110 False]"
  let ?C = "[Call_rln_InsertMembers 3 [1, 2], Call_UpdateLatestRoot 100,
       Call_rln_InsertMembers 5 [3], Call_UpdateLatestRoot 105,
       Call_rln_InsertMembers 6 [4], Call_UpdateLatestRoot 110,
       Call_SetMetadata 110 :: int call]"
  have run: "handler example_env example_gm ?E [] =
     (None, example_gm\<lparr>lastBlockProcessed := 110\<rparr>, ?C)"
    by (simp add: handler_eval)
  have s: "sorted (map BlockNumber (filter (\<lambda>e. \<not> Removed e) ?E))"
    by (simp add: member_event_def)
  have b: "UpdateLatestRoot_blocks (new_calls [] ?C) = [100, 105, 110]"
    by (simp add: new_calls_def)
  have stopped: "handler (failing_on (Call_UpdateLatestRoot 105)) example_gm ?E [] =
     (Some (collaborator_error ''failed''), example_gm,
      [Call_rln_InsertMembers 3 [1, 2], Call_UpdateLatestRoot 100,
       Call_rln_InsertMembers 5 [3], Call_UpdateLatestRoot 105])"
    by (simp add: handler_eval)
  from C3_insertions_in_arrival_order[OF run] s
  have "sorted_wrt (<) (UpdateLatestRoot_blocks (new_calls [] ?C))"
    by blast
  with run s b stopped show ?thesis by blast
qed


text \<open>
  Claim C4. The log after one \<open>handler\<close> invocation is the log before it followed by
  the calls of the invocation. Among these calls, no removal call
  (\<open>DeleteMembers\<close>, \<open>Backfill\<close>) comes after an insertion call
  (\<open>InsertMembers\<close>, \<open>UpdateLatestRoot\<close>); and when an insertion call is made, all
  the removal calls of the batch have been made before it and no deletion has failed.
\<close>

theorem C4_removals_before_insertions:
  fixes env :: "'a env"
  assumes run: "handler env gm events calls = (r, gm', calls')"
  shows "calls' = calls @ new_calls calls calls' \<and>
         (\<forall>i j. i < j \<and> j < length (new_calls calls calls') \<and>
            is_insertion_call (new_calls calls calls' ! i) \<longrightarrow>
            \<not> is_removal_call (new_calls calls calls' ! j)) \<and>
         (\<forall>i. i < length (new_calls calls calls') \<and>
            is_insertion_call (new_calls calls calls' ! i) \<longrightarrow>
            length (batch_removal_calls events :: 'a call list) \<le> i \<and>
            take (length (batch_removal_calls events :: 'a call list)) (new_calls calls calls') =
              batch_removal_calls events \<and>
            first_failure env calls (batch_removal_calls events) = None)"
proof -
  let ?R = "batch_removal_calls events :: 'a call list"
  let ?X = "batch_insertion_calls env events @
            [Call_SetMetadata (watermark (lastBlockProcessed gm) events)]"
  let ?new = "new_calls calls calls'"
  have pre: "prefix ?new (?R @ ?X)" by (rule handler_prefix(1)[OF run])
  have R_all: "list_all is_removal_call ?R" by (rule batch_removal_calls_all)
  have X_none: "\<not> is_removal_call c" if "c \<in> set ?X" for c
    using that batch_insertion_calls_all[of env events]
    by (auto simp: list_all_iff insertion_not_removal)
  have after: "length ?R \<le> i" if "i < length ?new" "is_insertion_call (?new ! i)" for i
  proof (rule ccontr)
    assume "\<not> length ?R \<le> i"
    then have lt: "i < length ?R" by simp
    have "?new ! i = ?R ! i"
      using prefix_nth[OF pre that(1)] lt by (simp add: nth_append)
    moreover have "is_removal_call (?R ! i)"
      using R_all lt by (simp add: list_all_length)
    ultimately have "is_removal_call (?new ! i)" by simp
    with insertion_not_removal[OF that(2)] show False by simp
  qed
  have one: "\<not> is_removal_call (?new ! j)"
    if "i < j" "j < length ?new" "is_insertion_call (?new ! i)" for i j
  proof -
    have "length ?R \<le> i" using after that by simp
    with that(1) have ge: "length ?R \<le> j" by simp
    have len: "j < length (?R @ ?X)"
      using prefix_length_le[OF pre] that(2) by simp
    have "?new ! j = ?X ! (j - length ?R)"
      using prefix_nth[OF pre that(2)] ge by (simp add: nth_append)
    moreover have "j - length ?R < length ?X"
      using len ge by simp
    then have "?X ! (j - length ?R) \<in> set ?X"
      by (rule nth_mem)
    then have "\<not> is_removal_call (?X ! (j - length ?R))"
      by (rule X_none)
    ultimately show ?thesis by simp
  qed
  have two: "length ?R \<le> i \<and> take (length ?R) ?new = ?R \<and> first_failure env calls ?R = None"
    if "i < length ?new" "is_insertion_call (?new ! i)" for i
  proof -
    have ge: "length ?R \<le> i" using after that by simp
    with that(1) have lt: "length ?R < length ?new" by simp
    have le: "length ?R \<le> length ?new" using lt by simp
    have "take (length ?R) ?new = ?R"
      by (rule prefix_take_length[OF pre le])
    moreover have "first_failure env calls ?R = None"
      by (rule handler_removals_done[OF run lt])
    ultimately show ?thesis using ge by simp
  qed
  have A: "\<forall>i j. i < j \<and> j < length ?new \<and> is_insertion_call (?new ! i) \<longrightarrow>
            \<not> is_removal_call (?new ! j)"
    using one by blast
  have B: "\<forall>i. i < length ?new \<and> is_insertion_call (?new ! i) \<longrightarrow>
            length ?R \<le> i \<and> take (length ?R) ?new = ?R \<and> first_failure env calls ?R = None"
    using two by blast
  have E: "calls' = calls @ ?new" by (rule handler_extends[OF run])
  show ?thesis by (rule conjI[OF E conjI[OF A B]])
qed

theorem C4_witness:
  "handler example_env example_gm
     [member_event 170 0 50 False, member_event 9 5 60 True] [] =
     (None, example_gm\<lparr>lastBlockProcessed := 50\<rparr>,
      [Call_rln_DeleteMembers [5], Call_Backfill 60, Call_rln_InsertMembers 0 [170],
       Call_UpdateLatestRoot 50, Call_SetMetadata 50]) \<and>
   (2 :: nat) < 4 \<and>
   is_insertion_call (new_calls []
      [Call_rln_DeleteMembers [5], Call_Backfill 60, Call_rln_InsertMembers 0 [170],
       Call_UpdateLatestRoot 50, Call_SetMetadata 50 :: int call] ! 2) \<and>
   \<not> is_removal_call (new_calls []
      [Call_rln_DeleteMembers [5], Call_Backfill 60, Call_rln_InsertMembers 0 [170],
       Call_UpdateLatestRoot 50, Call_SetMetadata 50 :: int call] ! 4) \<and>
   take (length (batch_removal_calls [member_event 170 0 50 False, member_event 9 5 60 True]
           :: int call list))
     (new_calls []
      [Call_rln_DeleteMembers [5], Call_Backfill 60, Call_rln_InsertMembers 0 [170],
       Call_UpdateLatestRoot 50, Call_SetMetadata 50 :: int call]) =
     batch_removal_calls [member_event 170 0 50 False, member_event 9 5 60 True]"
proof -
  let ?E = "[member_event 170 0 50 False, member_event 9 5 60 True]"
  let ?C = "[Call_rln_DeleteMembers [5], Call_Backfill 60, Call_rln_InsertMembers 0 [170],
       Call_UpdateLatestRoot 50, Call_SetMetadata 50 :: int call]"
  have run: "handler example_env example_gm ?E [] =
     (None, example_gm\<lparr>lastBlockProcessed := 50\<rparr>, ?C)"
    by (simp add: handler_eval)
  have len: "(4 :: nat) < length (new_calls [] ?C)" and lt: "(2 :: nat) < 4"
    and len2: "(2 :: nat) < length (new_calls [] ?C)"
    by (simp_all add: new_calls_def)
  have ins: "is_insertion_call (new_calls [] ?C ! 2)"
    by (simp add: new_calls_def)
  note c4 = C4_removals_before_insertions[OF run]
  from c4 lt len ins have a: "\<not> is_removal_call (new_calls [] ?C ! 4)"
    by blast
  from c4 len2 ins
  have b: "take (length (batch_removal_calls ?E :: int call list)) (new_calls [] ?C) =
           batch_removal_calls ?E"
    by blast
  from run lt ins a b show ?thesis by blast
qed


subsection \<open>The start index of an insertion\<close>

text \<open>
  Claim C1, as amended. The calls of \<open>InsertMembers\<close> are a prefix of the sequence
  that, for each block group, inserts the commitments in arrival order starting at the
  index of the first event of the group. When the first event of every group carries the
  lowest index of its group, this start index is the minimum index of the group: the calls
  are then a prefix of the calls the specification expects, and all of them when
  \<open>InsertMembers\<close> returns no error.
\<close>

theorem C1_start_index_of_first_event:
  assumes run: "InsertMembers env toInsert calls = (r, calls')"
  shows "prefix (new_calls calls calls') (concat (map (insertion_calls_of env) toInsert)) \<and>
         ((\<forall>p\<in>set toInsert. \<forall>e\<in>set (snd p). Index (hd (snd p)) \<le> Index e) \<longrightarrow>
            prefix (new_calls calls calls') (concat (map (spec_insertion_calls_of env) toInsert)) \<and>
            (r = None \<longrightarrow>
               new_calls calls calls' = concat (map (spec_insertion_calls_of env) toInsert)))"
proof -
  have a: "prefix (new_calls calls calls') (concat (map (insertion_calls_of env) toInsert))"
    by (rule InsertMembers_prefix(1)[OF run])
  have b: "prefix (new_calls calls calls') (concat (map (spec_insertion_calls_of env) toInsert)) \<and>
           (r = None \<longrightarrow>
              new_calls calls calls' = concat (map (spec_insertion_calls_of env) toInsert))"
    if low: "\<forall>p\<in>set toInsert. \<forall>e\<in>set (snd p). Index (hd (snd p)) \<le> Index e"
  proof -
    have "map (insertion_calls_of env) toInsert = map (spec_insertion_calls_of env) toInsert"
      using low by (intro map_cong refl lowest_first_calls) blast
    then have eq: "concat (map (insertion_calls_of env) toInsert) =
                   concat (map (spec_insertion_calls_of env) toInsert)"
      by (rule arg_cong[of _ _ concat])
    show ?thesis
      using a InsertMembers_prefix(2)[OF run] unfolding eq by blast
  qed
  show ?thesis using a b by blast
qed

text \<open>
  The batch of the specification: the events at the indexes 7, 8 and 9 of one block arrive
  as 8, 7, 9. The insertion starts at 8, the index of the first event, and not at the
  minimum 7.
\<close>

theorem C1_counterexample:
  "InsertMembers example_env
     [(5, [member_event 2 8 5 False, member_event 1 7 5 False, member_event 3 9 5 False])] [] =
     (None, [Call_rln_InsertMembers 8 [2, 1, 3], Call_UpdateLatestRoot 5]) \<and>
   Min (set (map Index
     [member_event 2 8 5 False, member_event 1 7 5 False, member_event 3 9 5 False])) = 7 \<and>
   Call_rln_InsertMembers 7 [2, 1, 3] \<notin> set (snd (InsertMembers example_env
     [(5, [member_event 2 8 5 False, member_event 1 7 5 False, member_event 3 9 5 False])] []))"
  by (simp add: handler_eval)

theorem C1_witness:
  "InsertMembers example_env
     [(5, [member_event 1 7 5 False, member_event 3 9 5 False, member_event 2 8 5 False])] [] =
     (None, [Call_rln_InsertMembers 7 [1, 3, 2], Call_UpdateLatestRoot 5]) \<and>
   Min (set (map Index
     [member_event 1 7 5 False, member_event 3 9 5 False, member_event 2 8 5 False])) = 7 \<and>
   new_calls [] [Call_rln_InsertMembers 7 [1, 3, 2], Call_UpdateLatestRoot 5] =
     concat (map (spec_insertion_calls_of example_env)
       [(5, [member_event 1 7 5 False, member_event 3 9 5 False, member_event 2 8 5 False])])"
proof -
  let ?T = "[(5 :: uint64,
    [member_event 1 7 5 False, member_event 3 9 5 False, member_event 2 8 5 False])]"
  have run: "InsertMembers example_env ?T [] =
     (None, [Call_rln_InsertMembers 7 [1, 3, 2], Call_UpdateLatestRoot 5])"
    by (simp add: handler_eval)
  have low: "\<forall>p\<in>set ?T. \<forall>e\<in>set (snd p). Index (hd (snd p)) \<le> Index e"
    by (simp add: member_event_def)
  have m: "Min (set (map Index
     [member_event 1 7 5 False, member_event 3 9 5 False, member_event 2 8 5 False])) = 7"
    by (simp add: member_event_def)
  from C1_start_index_of_first_event[OF run] low
  have "new_calls [] [Call_rln_InsertMembers 7 [1, 3, 2], Call_UpdateLatestRoot 5] =
     concat (map (spec_insertion_calls_of example_env) ?T)"
    by blast
  with run m show ?thesis by blast
qed


text \<open>
  Claim C10, as amended. The first call of \<open>InsertMembers\<close> on a group of one event
  is the insertion at the start index computed from the event's index, whatever the index
  is: there is no range check. The start index is the index modulo \<open>2 ^ 64\<close>; for an
  index that is not negative it differs from the index exactly when the index is at least
  \<open>2 ^ 64\<close>.
\<close>

theorem C10_start_index_is_index_mod_2_64:
  "take 1 (new_calls calls (snd (InsertMembers env [(key, [evt])] calls))) =
     [Call_rln_InsertMembers (startIndex_of (Index evt)) [BigIntToBytes32 env (IdCommitment evt)]] \<and>
   uint (startIndex_of (Index evt)) = Index evt mod 2 ^ 64 \<and>
   (0 \<le> Index evt \<longrightarrow> (uint (startIndex_of (Index evt)) \<noteq> Index evt) = (2 ^ 64 \<le> Index evt))"
proof -
  have a: "take 1 (new_calls calls (snd (InsertMembers env [(key, [evt])] calls))) =
     [Call_rln_InsertMembers (startIndex_of (Index evt)) [BigIntToBytes32 env (IdCommitment evt)]]"
    by (simp add: InsertMembers_def oldest_first_def collect_block_eq commitments_of_def
          invoke_def new_calls_def split: option.splits)
  have b: "uint (startIndex_of (Index evt)) = Index evt mod 2 ^ 64"
    by (rule uint_startIndex_of)
  have c: "(uint (startIndex_of (Index evt)) \<noteq> Index evt) = (2 ^ 64 \<le> Index evt)"
    if "0 \<le> Index evt"
  proof -
    have "(Index evt mod 2 ^ 64 = Index evt) = (Index evt < 2 ^ 64)"
      using that by (auto simp: mod_pos_pos_trivial intro: order.strict_trans2 dest: sym)
    then show ?thesis unfolding b by auto
  qed
  show ?thesis using a b c by blast
qed

text \<open>
  The index \<open>2 ^ 63\<close> does not fit a signed 64-bit integer, and the start index computed
  from it is \<open>2 ^ 63\<close> itself.
\<close>

theorem C10_counterexample:
  "\<not> (- (2 ^ 63) \<le> (2 :: int) ^ 63 \<and> (2 :: int) ^ 63 \<le> 2 ^ 63 - 1) \<and>
   uint (startIndex_of (2 ^ 63)) = 2 ^ 63"
  by (simp add: startIndex_of_def uint_of_int64_def big_Int64_def)

theorem C10_witness:
  "(0 :: int) \<le> 2 ^ 64 + 7 \<and> (2 :: int) ^ 64 \<le> 2 ^ 64 + 7 \<and>
   uint (startIndex_of (Index (member_event 1 (2 ^ 64 + 7) 5 False))) = 7 \<and>
   uint (startIndex_of (Index (member_event 1 (2 ^ 64 + 7) 5 False))) \<noteq>
     Index (member_event 1 (2 ^ 64 + 7) 5 False)"
proof -
  let ?e = "member_event 1 (2 ^ 64 + 7) 5 False"
  have i: "Index ?e = 2 ^ 64 + 7" by (simp add: member_event_def)
  have nn: "0 \<le> Index ?e" and big: "2 ^ 64 \<le> Index ?e" by (simp_all add: member_event_def)
  note c10 = C10_start_index_is_index_mod_2_64[of "[]" example_env 5 ?e]
  from c10 have m: "uint (startIndex_of (Index ?e)) = Index ?e mod 2 ^ 64" by blast
  have v: "uint (startIndex_of (Index ?e)) = 7" using m by (simp add: member_event_def)
  from c10 nn big have d: "uint (startIndex_of (Index ?e)) \<noteq> Index ?e" by blast
  from v d show ?thesis by simp
qed

subsection \<open>\<open>Start\<close> after a failed \<open>Start\<close>, and \<open>Stop\<close> when the flush fails\<close>

text \<open>
  Claim C8. The code at the input where the claim fails: \<open>Start\<close> on a fresh manager
  with a chain client that cannot be dialled returns the error of the dial and leaves the
  cancel function stored; a second \<open>Start\<close>, with collaborators that would all succeed,
  is then rejected as already started.
\<close>

theorem C8_failed_Start_rejects_retry:
  "Start (failing_on (Call_ethclient_Dial ''ws://chain'')) fresh_gm (Some 0) (Some 0) [] =
     (Some (collaborator_error ''failed''), fresh_gm\<lparr>cancel := Some ()\<rparr>,
      [Call_ethclient_Dial ''ws://chain'']) \<and>
   Start example_env (fresh_gm\<lparr>cancel := Some ()\<rparr>) (Some 0) (Some 0)
      [Call_ethclient_Dial ''ws://chain''] =
     (Some (errors_New ''already started''), fresh_gm\<lparr>cancel := Some ()\<rparr>,
      [Call_ethclient_Dial ''ws://chain''])"
  by (simp add: Start_def invoke_def failing_on_def example_env_def fresh_gm_def)

text \<open>
  Claim C9. The code at the input where the claim fails: when \<open>Flush\<close> returns an error,
  \<open>Stop\<close> returns it after the calls of the cancel function and of \<open>Flush\<close> only; the
  chain client is not closed and the workers are not waited for, as they are when
  \<open>Flush\<close> succeeds.
\<close>

theorem C9_Stop_returns_at_flush_error:
  "Stop (failing_on Call_rln_Flush) example_gm [] =
     (Some (collaborator_error ''failed''), [Call_cancel, Call_rln_Flush]) \<and>
   Stop example_env example_gm [] =
     (None, [Call_cancel, Call_rln_Flush, Call_ethClient_Close, Call_wg_Wait])"
  by (simp add: Stop_def invoke_def failing_on_def example_env_def example_gm_def)

end
